theory Spec2Isabelle
  imports Main
begin

section \<open>Data model of \<open>src/js/Game.js\<close>\<close>

text \<open>
  The class \<open>Game\<close> keeps a grid of \<open>Cell\<close> objects, a flag counter, a reset button
  and a handful of numbers in private fields, and mutates them from event handlers.
  The embedding is explicit state passing: every method takes the state of the game
  and returns the new one.  A \<open>Cell\<close> object is referred to by the place
  \<open>(row, col)\<close> where the grid holds it.
\<close>

datatype error = TypeError

text \<open>
  Outcome of a method that can throw: \<open>Inr s\<close> is normal completion in state \<open>s\<close>,
  \<open>Inl (e, s)\<close> is the exception \<open>e\<close> leaving the method with the fields as \<open>s\<close>
  has them.
\<close>

type_synonym 's result = "(error \<times> 's) + 's"

text \<open>
  The fields of a \<open>Cell\<close> that \<open>Game.js\<close> reads and writes: \<open>x\<close>, \<open>y\<close>, \<open>value\<close>,
  \<open>isMine\<close>, \<open>isReveal\<close>, \<open>isFlagged\<close>.
\<close>

record cell =
  cell_x :: nat
  cell_y :: nat
  cell_value :: nat
  isMine :: bool
  isReveal :: bool
  isFlagged :: bool

text \<open>
  Modelled from the spec: the class \<open>Cell\<close> of \<open>Cell.js\<close> (constructor, \<open>addMine\<close>,
  \<open>toggleFlag\<close>, \<open>revealCell\<close>) is imported by \<open>Game.js\<close> and is not among the
  sources.  Section 3 and 4.1 of the specification: a fresh cell carries its
  coordinates, no hazard, no flag, is not revealed and has no adjacency count yet.
\<close>

definition newCell :: "nat \<Rightarrow> nat \<Rightarrow> cell" where
  "newCell x y =
     \<lparr>cell_x = x, cell_y = y, cell_value = 0,
      isMine = False, isReveal = False, isFlagged = False\<rparr>"

text \<open>Modelled from the spec: \<open>markHazard()\<close> "sets \<open>isHazard = true\<close>".\<close>

definition addMine :: "cell \<Rightarrow> cell" where
  "addMine c = c\<lparr>isMine := True\<rparr>"

text \<open>
  Modelled from the spec: \<open>toggleFlag()\<close> "flips \<open>isFlagged\<close>, permitted only when
  \<open>isRevealed\<close> is false; otherwise no-op".
\<close>

definition toggleFlag :: "cell \<Rightarrow> cell" where
  "toggleFlag c = (if isReveal c then c else c\<lparr>isFlagged := \<not> isFlagged c\<rparr>)"

text \<open>
  Modelled from the spec: \<open>reveal\<close> "sets \<open>isRevealed = true\<close>"; the adjacency count
  is stored by the caller (\<open>cell.value = minesCount\<close>) just before.
\<close>

definition revealCell :: "cell \<Rightarrow> cell" where
  "revealCell c = c\<lparr>isReveal := True\<rparr>"

text \<open>The three faces of the reset button (\<open>changeEmotion\<close>).\<close>

datatype emotion = Neutral | Positive | Negative

text \<open>
  The private fields of \<open>Game\<close>.  \<open>counter_value\<close> is \<open>this.#counter.value\<close>,
  \<open>reset_emotion\<close> the argument of the last \<open>this.#buttons.reset.changeEmotion\<close>.
  \<open>processed\<close> is not a field of the source: it is a history variable that lists,
  newest first, the cells on which \<open>#setCellValue\<close> has run; nothing reads it.
\<close>

record game =
  isGameFinished :: bool
  numberOfRowes :: nat
  numberOfCols :: nat
  numberOfMines :: nat
  cells :: "cell list list"
  cellsToReveal :: int
  revealedCells :: int
  counter_value :: int
  reset_emotion :: emotion
  processed :: "(nat \<times> nat) list"

type_synonym pos = "nat \<times> nat"

definition cellAt :: "game \<Rightarrow> pos \<Rightarrow> cell" where
  "cellAt g p = cells g ! fst p ! snd p"

definition updateCell :: "(cell \<Rightarrow> cell) \<Rightarrow> pos \<Rightarrow> game \<Rightarrow> game" where
  "updateCell f p g =
     g\<lparr>cells := (cells g)[fst p := (cells g ! fst p)[snd p := f (cells g ! fst p ! snd p)]]\<rparr>"

definition in_bounds :: "game \<Rightarrow> pos \<Rightarrow> bool" where
  "in_bounds g p \<longleftrightarrow> fst p < numberOfRowes g \<and> snd p < numberOfCols g"

text \<open>
  Modelled from the spec: the \<open>Counter\<close> of \<open>Counter.js\<close> is not among the sources;
  "flagging decrements and unflagging increments" the remaining-flag counter by one.
\<close>

definition counter_setValue :: "int \<Rightarrow> game \<Rightarrow> game" where
  "counter_setValue v g = g\<lparr>counter_value := v\<rparr>"

definition counter_increment :: "game \<Rightarrow> game" where
  "counter_increment g = g\<lparr>counter_value := counter_value g + 1\<rparr>"

definition counter_decrement :: "game \<Rightarrow> game" where
  "counter_decrement g = g\<lparr>counter_value := counter_value g - 1\<rparr>"

section \<open>Board construction\<close>

text \<open>\<open>#generateCells\<close>: row \<open>row\<close> holds \<open>new Cell(col, row)\<close> for each column.\<close>

definition generateCells :: "game \<Rightarrow> game" where
  "generateCells g =
     g\<lparr>cells := map (\<lambda>row. map (\<lambda>col. newCell col row) [0..<numberOfCols g])
                    [0..<numberOfRowes g]\<rparr>"

text \<open>
  \<open>#placeMinesInCells\<close>.  The loop \<open>while (minesToPlace)\<close> draws a row and a column
  with \<open>#getRandomInteger\<close> in each round; the draws are given as a list, in order.
  \<open>None\<close>: the draws are used up and the loop is still running.  A draw outside the
  grid reads a property of \<open>undefined\<close>, which throws.
\<close>

fun placeMines :: "nat \<Rightarrow> pos list \<Rightarrow> game \<Rightarrow> game result option" where
  "placeMines 0 ds g = Some (Inr g)"
| "placeMines (Suc m) [] g = None"
| "placeMines (Suc m) (d # ds) g =
     (if fst d < length (cells g) \<and> snd d < length (cells g ! fst d) then
        (if \<not> isMine (cellAt g d) then placeMines m ds (updateCell addMine d g)
         else placeMines (Suc m) ds g)
      else Some (Inl (TypeError, g)))"

definition placeMinesInCells :: "pos list \<Rightarrow> game \<Rightarrow> game result option" where
  "placeMinesInCells ds g = placeMines (numberOfMines g) ds g"

text \<open>
  \<open>#newGame(rows, cols, mines)\<close>, with the draws of the placement.  Timer, styles,
  rendering and listeners are outside the model.
\<close>

definition newGame :: "nat \<Rightarrow> nat \<Rightarrow> nat \<Rightarrow> pos list \<Rightarrow> game \<Rightarrow> game result option" where
  "newGame rows cols mines ds g =
     (let g1 = g\<lparr>numberOfMines := mines, numberOfCols := cols, numberOfRowes := rows\<rparr>;
          g2 = counter_setValue (int (numberOfMines g1)) g1;
          g3 = g2\<lparr>cellsToReveal :=
                   int (numberOfCols g2) * int (numberOfRowes g2) - int (numberOfMines g2)\<rparr>;
          g4 = generateCells g3
      in case placeMinesInCells ds g4 of
           None \<Rightarrow> None
         | Some (Inl (e, g5)) \<Rightarrow> Some (Inl (e, g5))
         | Some (Inr g5) \<Rightarrow>
             Some (Inr (g5\<lparr>reset_emotion := Neutral, isGameFinished := False,
                            revealedCells := 0\<rparr>)))"

section \<open>Revealing\<close>

text \<open>\<open>#revealMines\<close>: every cell of the grid that holds a mine is revealed.\<close>

definition revealMines :: "game \<Rightarrow> game" where
  "revealMines g =
     g\<lparr>cells := map (map (\<lambda>c. if isMine c then revealCell c else c)) (cells g)\<rparr>"

text \<open>\<open>#endGame(isWin)\<close>; the modal and the timer are outside the model.\<close>

definition endGame :: "bool \<Rightarrow> game \<Rightarrow> game" where
  "endGame isWin g =
     (let g1 = g\<lparr>isGameFinished := True\<rparr>
      in if \<not> isWin then (revealMines g1)\<lparr>reset_emotion := Negative\<rparr>
         else g1\<lparr>reset_emotion := Positive\<rparr>)"

text \<open>
  The bounds of both scanning loops of \<open>#setCellValue\<close>, from
  \<open>Math.max(i - 1, 0)\<close> to \<open>Math.min(i + 1, n - 1)\<close> inclusive.
\<close>

definition scanRange :: "nat \<Rightarrow> nat \<Rightarrow> nat list" where
  "scanRange n i = map nat [max (int i - 1) 0 .. min (int i + 1) (int n - 1)]"

text \<open>The places the nested loops visit, rows outside and columns inside.\<close>

definition neighbourhood :: "game \<Rightarrow> cell \<Rightarrow> pos list" where
  "neighbourhood g c =
     List.product (scanRange (numberOfRowes g) (cell_y c)) (scanRange (numberOfCols g) (cell_x c))"

text \<open>
  The second pair of loops of \<open>#setCellValue\<close>: each visited cell that is not
  revealed is passed to \<open>#clickCell\<close>, here the parameter \<open>click\<close>.
\<close>

primrec revealAdjacent :: "(game \<Rightarrow> pos \<Rightarrow> game option) \<Rightarrow> pos list \<Rightarrow> game \<Rightarrow> game option" where
  "revealAdjacent click [] g = Some g"
| "revealAdjacent click (q # qs) g =
     (if \<not> isReveal (cellAt g q) then
        (case click g q of None \<Rightarrow> None | Some g' \<Rightarrow> revealAdjacent click qs g')
      else revealAdjacent click qs g)"

text \<open>
  \<open>#setCellValue(cell)\<close>, the cell given by its place \<open>p\<close>.  The first pair of loops
  counts the mines of the scanned block, the cell itself included.
\<close>

definition setCellValue :: "(game \<Rightarrow> pos \<Rightarrow> game option) \<Rightarrow> game \<Rightarrow> pos \<Rightarrow> game option" where
  "setCellValue click g p =
     (let c = cellAt g p;
          minesCount = length (filter (\<lambda>q. isMine (cellAt g q)) (neighbourhood g c));
          g1 = updateCell (\<lambda>c. c\<lparr>cell_value := minesCount\<rparr>) p g;
          g2 = updateCell revealCell p g1;
          g3 = g2\<lparr>revealedCells := revealedCells g2 + 1, processed := p # processed g2\<rparr>
      in if cell_value (cellAt g3 p) = 0 then revealAdjacent click (neighbourhood g3 c) g3
         else Some g3)"

text \<open>
  \<open>#clickCell(cell)\<close>.  It calls \<open>#setCellValue\<close>, which calls it back for the
  neighbours; the first argument bounds the depth of this recursion, and \<open>None\<close> says
  that the bound was reached.
\<close>

primrec clickCell :: "nat \<Rightarrow> game \<Rightarrow> pos \<Rightarrow> game option" where
  "clickCell 0 g p = None"
| "clickCell (Suc n) g p =
     (if isGameFinished g \<or> isFlagged (cellAt g p) then Some g
      else
        (case setCellValue (clickCell n)
                (if isMine (cellAt g p) then endGame False g else g) p of
           None \<Rightarrow> None
         | Some g' \<Rightarrow>
             Some (if revealedCells g' = cellsToReveal g' \<and> \<not> isGameFinished g'
                   then endGame True g' else g')))"

section \<open>Event handlers\<close>

text \<open>
  \<open>this.#cells[rowIndex][colIndex]\<close> for the parsed attributes of the event target:
  a row index outside the grid makes the second subscript throw, a column index
  outside the row gives \<open>undefined\<close> (\<open>None\<close>).
\<close>

definition cellRef :: "game \<Rightarrow> int \<Rightarrow> int \<Rightarrow> error + pos option" where
  "cellRef g rowIndex colIndex =
     (if 0 \<le> rowIndex \<and> rowIndex < int (length (cells g)) then
        Inr (if 0 \<le> colIndex \<and> colIndex < int (length (cells g ! nat rowIndex))
             then Some (nat rowIndex, nat colIndex) else None)
      else Inl TypeError)"

text \<open>
  \<open>#handleCellClick\<close>.  With \<open>cell\<close> undefined, \<open>#clickCell\<close> returns when the game
  is finished and throws on \<open>cell.isFlagged\<close> otherwise.
\<close>

definition handleCellClick :: "nat \<Rightarrow> game \<Rightarrow> int \<times> int \<Rightarrow> game result option" where
  "handleCellClick fuel g e =
     (case cellRef g (fst e) (snd e) of
        Inl err \<Rightarrow> Some (Inl (err, g))
      | Inr None \<Rightarrow> Some (if isGameFinished g then Inr g else Inl (TypeError, g))
      | Inr (Some p) \<Rightarrow> map_option Inr (clickCell fuel g p))"

text \<open>\<open>#handleCellContextMenu\<close>; \<open>cell.isReveal\<close> throws when \<open>cell\<close> is undefined.\<close>

definition handleCellContextMenu :: "game \<Rightarrow> int \<times> int \<Rightarrow> game result" where
  "handleCellContextMenu g e =
     (case cellRef g (fst e) (snd e) of
        Inl err \<Rightarrow> Inl (err, g)
      | Inr None \<Rightarrow> Inl (TypeError, g)
      | Inr (Some p) \<Rightarrow>
          Inr (if isReveal (cellAt g p) \<or> isGameFinished g then g
               else if isFlagged (cellAt g p) then updateCell toggleFlag p (counter_increment g)
               else if counter_value g \<noteq> 0 then updateCell toggleFlag p (counter_decrement g)
               else g))"

section \<open>Sessions\<close>

text \<open>The fields of a \<open>Game\<close> object before \<open>initializeGame\<close>.\<close>

definition freshGame :: game where
  "freshGame =
     \<lparr>isGameFinished = False, numberOfRowes = 0, numberOfCols = 0, numberOfMines = 0,
      cells = [], cellsToReveal = 0, revealedCells = 0, counter_value = 0,
      reset_emotion = Neutral, processed = []\<rparr>"

text \<open>
  A player's request is a left click or a right click, with the parsed \<open>data-y\<close> and
  \<open>data-x\<close> of the event target.
\<close>

datatype request = Click "int \<times> int" | ContextMenu "int \<times> int"

definition dispatch :: "nat \<Rightarrow> request \<Rightarrow> game \<Rightarrow> game result option" where
  "dispatch fuel req g =
     (case req of Click e \<Rightarrow> handleCellClick fuel g e
      | ContextMenu e \<Rightarrow> Some (handleCellContextMenu g e))"

text \<open>The fields once a handler is left, by return or by exception.\<close>

definition state_after :: "game result \<Rightarrow> game" where
  "state_after res = (case res of Inl (e, g) \<Rightarrow> g | Inr g \<Rightarrow> g)"

text \<open>Handlers run to completion one after the other.\<close>

primrec play :: "nat \<Rightarrow> request list \<Rightarrow> game \<Rightarrow> game option" where
  "play fuel [] g = Some g"
| "play fuel (req # reqs) g =
     (case dispatch fuel req g of None \<Rightarrow> None
      | Some res \<Rightarrow> play fuel reqs (state_after res))"

text \<open>A new game on a fresh object, followed by requests.\<close>

definition session :: "nat \<Rightarrow> nat \<Rightarrow> nat \<Rightarrow> pos list \<Rightarrow> nat \<Rightarrow> request list \<Rightarrow> game option" where
  "session rows cols mines ds fuel reqs =
     (case newGame rows cols mines ds freshGame of
        Some (Inr g) \<Rightarrow> play fuel reqs g
      | _ \<Rightarrow> None)"

text \<open>
  The states a game can be in: what \<open>#newGame\<close> builds (from any earlier state, as the
  difficulty and reset buttons call it), and what the handlers make of it.
\<close>

inductive reachable :: "game \<Rightarrow> bool" where
  start: "newGame rows cols mines ds g0 = Some (Inr g) \<Longrightarrow> reachable g"
| step: "reachable g \<Longrightarrow> dispatch fuel req g = Some res \<Longrightarrow> reachable (state_after res)"

section \<open>Notions used in the properties\<close>

text \<open>
  The grid has \<open>numberOfRowes\<close> rows of \<open>numberOfCols\<close> cells, and the cell at
  \<open>[row][col]\<close> carries \<open>y = row\<close> and \<open>x = col\<close>, as \<open>#generateCells\<close> builds it.
\<close>

definition wf_board :: "game \<Rightarrow> bool" where
  "wf_board g \<longleftrightarrow>
     length (cells g) = numberOfRowes g \<and>
     (\<forall>r \<in> {0..<numberOfRowes g}.
        length (cells g ! r) = numberOfCols g \<and>
        (\<forall>c \<in> {0..<numberOfCols g}.
           cell_y (cells g ! r ! c) = r \<and> cell_x (cells g ! r ! c) = c))"

definition revealedAt :: "pos \<Rightarrow> game \<Rightarrow> bool" where
  "revealedAt p g = isReveal (cellAt g p)"

definition flaggedAt :: "pos \<Rightarrow> game \<Rightarrow> bool" where
  "flaggedAt p g = isFlagged (cellAt g p)"

definition mineAt :: "pos \<Rightarrow> game \<Rightarrow> bool" where
  "mineAt p g = isMine (cellAt g p)"

definition valueAt :: "pos \<Rightarrow> game \<Rightarrow> nat" where
  "valueAt p g = cell_value (cellAt g p)"

text \<open>The place a request with in-range attributes refers to.\<close>

definition event_of :: "pos \<Rightarrow> int \<times> int" where
  "event_of p = (int (fst p), int (snd p))"

text \<open>Two places are at most one row and one column apart.\<close>

definition near :: "pos \<Rightarrow> pos \<Rightarrow> bool" where
  "near p q \<longleftrightarrow> fst p \<le> fst q + 1 \<and> fst q \<le> fst p + 1 \<and> snd p \<le> snd q + 1 \<and> snd q \<le> snd p + 1"

text \<open>
  The first half of \<open>#setCellValue\<close>, up to \<open>this.#revealedCells++\<close>: the count of
  the scanned block, and the state once the cell holds it and is revealed.
\<close>

definition minesCount :: "game \<Rightarrow> pos \<Rightarrow> nat" where
  "minesCount g p = length (filter (\<lambda>q. isMine (cellAt g q)) (neighbourhood g (cellAt g p)))"

definition processCell :: "game \<Rightarrow> pos \<Rightarrow> game" where
  "processCell g p =
     (updateCell revealCell p (updateCell (\<lambda>c. c\<lparr>cell_value := minesCount g p\<rparr>) p g))
       \<lparr>revealedCells := revealedCells g + 1, processed := p # processed g\<rparr>"

text \<open>All places of the grid, row by row.\<close>

definition positions :: "game \<Rightarrow> pos list" where
  "positions g = List.product [0..<numberOfRowes g] [0..<numberOfCols g]"

text \<open>The places of the grid that hold a mine, and their number counted on the grid.\<close>

definition minePlaces :: "game \<Rightarrow> pos set" where
  "minePlaces g = {p \<in> set (positions g). mineAt p g}"

definition mineCount :: "game \<Rightarrow> nat" where
  "mineCount g = length (filter isMine (concat (cells g)))"

text \<open>
  In the words of the specification: the neighbours of a place are the up to eight
  places of the grid around it, the place itself excluded, and the adjacency count is
  the number of neighbours that hold a mine.
\<close>

definition neighbours :: "game \<Rightarrow> pos \<Rightarrow> pos list" where
  "neighbours g p = filter (\<lambda>q. q \<noteq> p \<and> near p q) (positions g)"

definition adjacentHazards :: "game \<Rightarrow> pos \<Rightarrow> nat" where
  "adjacentHazards g p = length (filter (\<lambda>q. mineAt q g) (neighbours g p))"

text \<open>
  What a reveal leaves alone: the shape of the grid, the numbers fixed by \<open>#newGame\<close>,
  the flag counter, the mines and the flags; and what it never undoes: a finished
  game stays finished and a revealed cell stays revealed.
\<close>

definition frame :: "game \<Rightarrow> game \<Rightarrow> bool" where
  "frame g g' \<longleftrightarrow>
     wf_board g' \<and> numberOfRowes g' = numberOfRowes g \<and> numberOfCols g' = numberOfCols g \<and>
     numberOfMines g' = numberOfMines g \<and> cellsToReveal g' = cellsToReveal g \<and>
     counter_value g' = counter_value g \<and>
     (isGameFinished g \<longrightarrow> isGameFinished g') \<and>
     (\<forall>q. in_bounds g q \<longrightarrow>
        isMine (cellAt g' q) = isMine (cellAt g q) \<and>
        isFlagged (cellAt g' q) = isFlagged (cellAt g q) \<and>
        (isReveal (cellAt g q) \<longrightarrow> isReveal (cellAt g' q)))"

text \<open>Every revealed cell without a mine shows its adjacency count.\<close>

definition values_ok :: "game \<Rightarrow> bool" where
  "values_ok g \<longleftrightarrow>
     (\<forall>p. in_bounds g p \<and> revealedAt p g \<and> \<not> mineAt p g \<longrightarrow>
        valueAt p g = adjacentHazards g p)"

text \<open>The places of the grid whose cell is not revealed.\<close>

definition unrevealed :: "game \<Rightarrow> pos set" where
  "unrevealed g = {p \<in> set (positions g). \<not> revealedAt p g}"

text \<open>
  \<open>ps\<close> lists, newest first, the cells processed between the states \<open>g\<close> and
  \<open>g'\<close>: no cell twice, each counted once in \<open>#revealedCells\<close>, each on the grid
  and revealed in \<open>g'\<close>.
\<close>

definition traced :: "game \<Rightarrow> game \<Rightarrow> pos list \<Rightarrow> bool" where
  "traced g g' ps \<longleftrightarrow>
     processed g' = ps @ processed g \<and> distinct ps \<and>
     revealedCells g' = revealedCells g + int (length ps) \<and>
     (\<forall>r \<in> set ps. in_bounds g r \<and> revealedAt r g')"

text \<open>The places without a mine, and the places whose cell is revealed.\<close>

definition safePlaces :: "game \<Rightarrow> pos set" where
  "safePlaces g = {p \<in> set (positions g). \<not> mineAt p g}"

definition revealedPlaces :: "game \<Rightarrow> pos set" where
  "revealedPlaces g = {p \<in> set (positions g). revealedAt p g}"

text \<open>
  The counters of a game in progress agree with the grid: \<open>#cellsToReveal\<close> is the
  number of cells without a mine, \<open>#revealedCells\<close> is the number of revealed cells,
  and no mine is revealed.
\<close>

definition consistent :: "game \<Rightarrow> bool" where
  "consistent g \<longleftrightarrow>
     cellsToReveal g = int (card (safePlaces g)) \<and>
     revealedCells g = int (card (revealedPlaces g)) \<and>
     revealedPlaces g \<subseteq> safePlaces g"

text \<open>
  The same during a cascade, which may win the game on its way: then every cell
  without a mine is revealed.
\<close>

definition counted :: "game \<Rightarrow> bool" where
  "counted g \<longleftrightarrow>
     wf_board g \<and> cellsToReveal g = int (card (safePlaces g)) \<and>
     (if isGameFinished g then safePlaces g \<subseteq> revealedPlaces g
      else revealedCells g = int (card (revealedPlaces g)) \<and>
           revealedPlaces g \<subseteq> safePlaces g)"

text \<open>
  Unless the game is finished in \<open>g'\<close>: around every cell revealed between \<open>g\<close> and
  \<open>g'\<close> whose block holds no mine, every cell without a flag is revealed in \<open>g'\<close>.
\<close>

definition closed_since :: "game \<Rightarrow> game \<Rightarrow> bool" where
  "closed_since g g' \<longleftrightarrow>
     isGameFinished g' \<or>
     (\<forall>q. in_bounds g q \<and> revealedAt q g' \<and> \<not> revealedAt q g \<and> minesCount g q = 0 \<longrightarrow>
        (\<forall>r. in_bounds g r \<and> near q r \<and> \<not> flaggedAt r g \<longrightarrow> revealedAt r g'))"

text \<open>Flagged cells are revealed in \<open>g'\<close> only if they were in \<open>g\<close>.\<close>

definition flags_kept :: "game \<Rightarrow> game \<Rightarrow> bool" where
  "flags_kept g g' \<longleftrightarrow>
     (\<forall>r. in_bounds g r \<and> flaggedAt r g \<longrightarrow> (revealedAt r g' \<longleftrightarrow> revealedAt r g))"

text \<open>
  A chain from \<open>p\<close>: each further cell is on the grid, next to a cell of the chain
  that has no mine among its neighbours, and is neither flagged nor revealed.
\<close>

inductive chain :: "game \<Rightarrow> pos \<Rightarrow> pos \<Rightarrow> bool" for g :: game and p :: pos where
  first: "chain g p p"
| further: "chain g p q \<Longrightarrow> adjacentHazards g q = 0 \<Longrightarrow> in_bounds g r \<Longrightarrow> near q r \<Longrightarrow>
     \<not> flaggedAt r g \<Longrightarrow> \<not> revealedAt r g \<Longrightarrow> chain g p r"

section \<open>Example states\<close>

text \<open>A lost game on a board of one row and two columns, the mine at column 0.\<close>

definition lostGame :: game where
  "lostGame =
     \<lparr>isGameFinished = True, numberOfRowes = 1, numberOfCols = 2, numberOfMines = 1,
      cells =
        [[\<lparr>cell_x = 0, cell_y = 0, cell_value = 1,
            isMine = True, isReveal = True, isFlagged = False\<rparr>,
          \<lparr>cell_x = 1, cell_y = 0, cell_value = 0,
            isMine = False, isReveal = False, isFlagged = False\<rparr>]],
      cellsToReveal = 1, revealedCells = 1, counter_value = 1,
      reset_emotion = Negative, processed = [(0, 0)]\<rparr>"

text \<open>A new game on one row and two columns, the mine at column 0.\<close>

definition board12 :: game where
  "board12 =
     \<lparr>isGameFinished = False, numberOfRowes = 1, numberOfCols = 2, numberOfMines = 1,
      cells =
        [[\<lparr>cell_x = 0, cell_y = 0, cell_value = 0,
            isMine = True, isReveal = False, isFlagged = False\<rparr>,
          \<lparr>cell_x = 1, cell_y = 0, cell_value = 0,
            isMine = False, isReveal = False, isFlagged = False\<rparr>]],
      cellsToReveal = 1, revealedCells = 0, counter_value = 1,
      reset_emotion = Neutral, processed = []\<rparr>"

text \<open>The same board after a right click on column 1.\<close>

definition flagged12 :: game where
  "flagged12 =
     \<lparr>isGameFinished = False, numberOfRowes = 1, numberOfCols = 2, numberOfMines = 1,
      cells =
        [[\<lparr>cell_x = 0, cell_y = 0, cell_value = 0,
            isMine = True, isReveal = False, isFlagged = False\<rparr>,
          \<lparr>cell_x = 1, cell_y = 0, cell_value = 0,
            isMine = False, isReveal = False, isFlagged = True\<rparr>]],
      cellsToReveal = 1, revealedCells = 0, counter_value = 0,
      reset_emotion = Neutral, processed = []\<rparr>"

text \<open>The new game of one row and two columns after a right click on the mine.\<close>

definition flaggedMine12 :: game where
  "flaggedMine12 =
     \<lparr>isGameFinished = False, numberOfRowes = 1, numberOfCols = 2, numberOfMines = 1,
      cells =
        [[\<lparr>cell_x = 0, cell_y = 0, cell_value = 0,
            isMine = True, isReveal = False, isFlagged = True\<rparr>,
          \<lparr>cell_x = 1, cell_y = 0, cell_value = 0,
            isMine = False, isReveal = False, isFlagged = False\<rparr>]],
      cellsToReveal = 1, revealedCells = 0, counter_value = 0,
      reset_emotion = Neutral, processed = []\<rparr>"

text \<open>
  One row and three columns with two mines, as \<open>#placeMinesInCells\<close> leaves the
  grid when the draws are column 2, column 2 again and column 0.
\<close>

definition mined13 :: game where
  "mined13 =
     \<lparr>isGameFinished = False, numberOfRowes = 1, numberOfCols = 3, numberOfMines = 2,
      cells =
        [[\<lparr>cell_x = 0, cell_y = 0, cell_value = 0,
            isMine = True, isReveal = False, isFlagged = False\<rparr>,
          \<lparr>cell_x = 1, cell_y = 0, cell_value = 0,
            isMine = False, isReveal = False, isFlagged = False\<rparr>,
          \<lparr>cell_x = 2, cell_y = 0, cell_value = 0,
            isMine = True, isReveal = False, isFlagged = False\<rparr>]],
      cellsToReveal = 0, revealedCells = 0, counter_value = 0,
      reset_emotion = Neutral, processed = []\<rparr>"

text \<open>The new game of one row and two columns after a left click on column 1.\<close>

definition wonGame12 :: game where
  "wonGame12 =
     \<lparr>isGameFinished = True, numberOfRowes = 1, numberOfCols = 2, numberOfMines = 1,
      cells =
        [[\<lparr>cell_x = 0, cell_y = 0, cell_value = 0,
            isMine = True, isReveal = False, isFlagged = False\<rparr>,
          \<lparr>cell_x = 1, cell_y = 0, cell_value = 1,
            isMine = False, isReveal = True, isFlagged = False\<rparr>]],
      cellsToReveal = 1, revealedCells = 1, counter_value = 1,
      reset_emotion = Positive, processed = [(0, 1)]\<rparr>"

text \<open>A new game on three rows and three columns, the mine in the last corner.\<close>

definition board33 :: game where
  "board33 =
     \<lparr>isGameFinished = False, numberOfRowes = 3, numberOfCols = 3, numberOfMines = 1,
      cells =
        [[\<lparr>cell_x = 0, cell_y = 0, cell_value = 0,
            isMine = False, isReveal = False, isFlagged = False\<rparr>,
          \<lparr>cell_x = 1, cell_y = 0, cell_value = 0,
            isMine = False, isReveal = False, isFlagged = False\<rparr>,
          \<lparr>cell_x = 2, cell_y = 0, cell_value = 0,
            isMine = False, isReveal = False, isFlagged = False\<rparr>],
         [\<lparr>cell_x = 0, cell_y = 1, cell_value = 0,
            isMine = False, isReveal = False, isFlagged = False\<rparr>,
          \<lparr>cell_x = 1, cell_y = 1, cell_value = 0,
            isMine = False, isReveal = False, isFlagged = False\<rparr>,
          \<lparr>cell_x = 2, cell_y = 1, cell_value = 0,
            isMine = False, isReveal = False, isFlagged = False\<rparr>],
         [\<lparr>cell_x = 0, cell_y = 2, cell_value = 0,
            isMine = False, isReveal = False, isFlagged = False\<rparr>,
          \<lparr>cell_x = 1, cell_y = 2, cell_value = 0,
            isMine = False, isReveal = False, isFlagged = False\<rparr>,
          \<lparr>cell_x = 2, cell_y = 2, cell_value = 0,
            isMine = True, isReveal = False, isFlagged = False\<rparr>]],
      cellsToReveal = 8, revealedCells = 0, counter_value = 1,
      reset_emotion = Neutral, processed = []\<rparr>"

text \<open>The same game after a left click on the first corner: the cascade wins it.\<close>

definition won33 :: game where
  "won33 =
     \<lparr>isGameFinished = True, numberOfRowes = 3, numberOfCols = 3, numberOfMines = 1,
      cells =
        [[\<lparr>cell_x = 0, cell_y = 0, cell_value = 0,
            isMine = False, isReveal = True, isFlagged = False\<rparr>,
          \<lparr>cell_x = 1, cell_y = 0, cell_value = 0,
            isMine = False, isReveal = True, isFlagged = False\<rparr>,
          \<lparr>cell_x = 2, cell_y = 0, cell_value = 0,
            isMine = False, isReveal = True, isFlagged = False\<rparr>],
         [\<lparr>cell_x = 0, cell_y = 1, cell_value = 0,
            isMine = False, isReveal = True, isFlagged = False\<rparr>,
          \<lparr>cell_x = 1, cell_y = 1, cell_value = 1,
            isMine = False, isReveal = True, isFlagged = False\<rparr>,
          \<lparr>cell_x = 2, cell_y = 1, cell_value = 1,
            isMine = False, isReveal = True, isFlagged = False\<rparr>],
         [\<lparr>cell_x = 0, cell_y = 2, cell_value = 0,
            isMine = False, isReveal = True, isFlagged = False\<rparr>,
          \<lparr>cell_x = 1, cell_y = 2, cell_value = 1,
            isMine = False, isReveal = True, isFlagged = False\<rparr>,
          \<lparr>cell_x = 2, cell_y = 2, cell_value = 0,
            isMine = True, isReveal = False, isFlagged = False\<rparr>]],
      cellsToReveal = 8, revealedCells = 8, counter_value = 1,
      reset_emotion = Positive,
      processed = [(2, 1), (2, 0), (1, 0), (1, 2), (1, 1), (0, 2), (0, 1), (0, 0)]\<rparr>"

text \<open>The new game on three rows and three columns after a right click on row 1, column 0.\<close>

definition flagged33 :: game where
  "flagged33 =
     \<lparr>isGameFinished = False, numberOfRowes = 3, numberOfCols = 3, numberOfMines = 1,
      cells =
        [[\<lparr>cell_x = 0, cell_y = 0, cell_value = 0,
            isMine = False, isReveal = False, isFlagged = False\<rparr>,
          \<lparr>cell_x = 1, cell_y = 0, cell_value = 0,
            isMine = False, isReveal = False, isFlagged = False\<rparr>,
          \<lparr>cell_x = 2, cell_y = 0, cell_value = 0,
            isMine = False, isReveal = False, isFlagged = False\<rparr>],
         [\<lparr>cell_x = 0, cell_y = 1, cell_value = 0,
            isMine = False, isReveal = False, isFlagged = True\<rparr>,
          \<lparr>cell_x = 1, cell_y = 1, cell_value = 0,
            isMine = False, isReveal = False, isFlagged = False\<rparr>,
          \<lparr>cell_x = 2, cell_y = 1, cell_value = 0,
            isMine = False, isReveal = False, isFlagged = False\<rparr>],
         [\<lparr>cell_x = 0, cell_y = 2, cell_value = 0,
            isMine = False, isReveal = False, isFlagged = False\<rparr>,
          \<lparr>cell_x = 1, cell_y = 2, cell_value = 0,
            isMine = False, isReveal = False, isFlagged = False\<rparr>,
          \<lparr>cell_x = 2, cell_y = 2, cell_value = 0,
            isMine = True, isReveal = False, isFlagged = False\<rparr>]],
      cellsToReveal = 8, revealedCells = 0, counter_value = 0,
      reset_emotion = Neutral, processed = []\<rparr>"

text \<open>
  One row and six columns, the mines at columns 4 and 5.  Columns 0 and 2 were
  flagged, column 1 was clicked, and both flags were removed again: column 1 is
  revealed with count 0 between two hidden cells.
\<close>

definition stale16 :: game where
  "stale16 =
     \<lparr>isGameFinished = False, numberOfRowes = 1, numberOfCols = 6, numberOfMines = 2,
      cells =
        [[\<lparr>cell_x = 0, cell_y = 0, cell_value = 0,
            isMine = False, isReveal = False, isFlagged = False\<rparr>,
          \<lparr>cell_x = 1, cell_y = 0, cell_value = 0,
            isMine = False, isReveal = True, isFlagged = False\<rparr>,
          \<lparr>cell_x = 2, cell_y = 0, cell_value = 0,
            isMine = False, isReveal = False, isFlagged = False\<rparr>,
          \<lparr>cell_x = 3, cell_y = 0, cell_value = 0,
            isMine = False, isReveal = False, isFlagged = False\<rparr>,
          \<lparr>cell_x = 4, cell_y = 0, cell_value = 0,
            isMine = True, isReveal = False, isFlagged = False\<rparr>,
          \<lparr>cell_x = 5, cell_y = 0, cell_value = 0,
            isMine = True, isReveal = False, isFlagged = False\<rparr>]],
      cellsToReveal = 4, revealedCells = 1, counter_value = 2,
      reset_emotion = Neutral, processed = [(0, 1)]\<rparr>"

text \<open>
  Draws that place the ten mines of the easy game (eight rows, eight columns): the
  last row, and the first two columns of the row above it.
\<close>

definition easyDraws :: "pos list" where
  "easyDraws =
     [(7, 0), (7, 1), (7, 2), (7, 3), (7, 4), (7, 5), (7, 6), (7, 7), (6, 0), (6, 1)]"

text \<open>The two counters that decide a win, and whether the game is finished.\<close>

definition counters :: "game \<Rightarrow> int \<times> int \<times> bool" where
  "counters g = (revealedCells g, cellsToReveal g, isGameFinished g)"

section \<open>Basic facts\<close>

lemma wf_boardD:
  assumes "wf_board g" "in_bounds g p"
  shows "fst p < length (cells g)" "snd p < length (cells g ! fst p)"
    "cell_y (cellAt g p) = fst p" "cell_x (cellAt g p) = snd p"
  using assms by (auto simp: wf_board_def in_bounds_def cellAt_def)

lemma board12_newGame: "newGame 1 2 1 [(0, 0)] freshGame = Some (Inr board12)"
  by code_simp

lemma lostGame_session: "session 1 2 1 [(0, 0)] 2 [Click (0, 0)] = Some lostGame"
  by code_simp

subsection \<open>Updating a cell\<close>

lemma updateCell_fields [simp]:
  "isGameFinished (updateCell f p g) = isGameFinished g"
  "numberOfRowes (updateCell f p g) = numberOfRowes g"
  "numberOfCols (updateCell f p g) = numberOfCols g"
  "numberOfMines (updateCell f p g) = numberOfMines g"
  "cellsToReveal (updateCell f p g) = cellsToReveal g"
  "revealedCells (updateCell f p g) = revealedCells g"
  "counter_value (updateCell f p g) = counter_value g"
  "reset_emotion (updateCell f p g) = reset_emotion g"
  "processed (updateCell f p g) = processed g"
  by (simp_all add: updateCell_def)

lemma in_bounds_updateCell [simp]: "in_bounds (updateCell f p g) q = in_bounds g q"
  by (simp add: in_bounds_def)

lemma cellAt_updateCell:
  assumes "wf_board g" "in_bounds g p"
  shows "cellAt (updateCell f p g) q = (if q = p then f (cellAt g p) else cellAt g q)"
proof -
  from assms have v: "fst p < length (cells g)" "snd p < length (cells g ! fst p)"
    by (rule wf_boardD)+
  show ?thesis
  proof (cases "fst q = fst p")
    case True
    with v show ?thesis
      by (cases "snd q = snd p") (auto simp: cellAt_def updateCell_def prod_eq_iff)
  next
    case False
    then show ?thesis
      by (auto simp: cellAt_def updateCell_def)
  qed
qed

lemma cells_updateCell_length [simp]: "length (cells (updateCell f p g)) = length (cells g)"
  by (simp add: updateCell_def)

lemma cells_updateCell_row_length [simp]:
  "length (cells (updateCell f p g) ! r) = length (cells g ! r)"
proof (cases "fst p < length (cells g)")
  case True
  then show ?thesis by (cases "r = fst p") (simp_all add: updateCell_def)
next
  case False
  then show ?thesis by (simp add: updateCell_def list_update_beyond)
qed

lemma wf_board_iff:
  "wf_board g \<longleftrightarrow>
     length (cells g) = numberOfRowes g \<and>
     (\<forall>r < numberOfRowes g. length (cells g ! r) = numberOfCols g) \<and>
     (\<forall>p. in_bounds g p \<longrightarrow> cell_y (cellAt g p) = fst p \<and> cell_x (cellAt g p) = snd p)"
  by (auto simp: wf_board_def in_bounds_def cellAt_def)

lemma wf_board_updateCell:
  assumes "wf_board g"
    and "cell_x (f (cellAt g p)) = cell_x (cellAt g p)"
    and "cell_y (f (cellAt g p)) = cell_y (cellAt g p)"
  shows "wf_board (updateCell f p g)"
proof (cases "in_bounds g p")
  case True
  have "cell_y (cellAt (updateCell f p g) q) = fst q \<and> cell_x (cellAt (updateCell f p g) q) = snd q"
    if "in_bounds g q" for q
    using that assms True by (simp add: cellAt_updateCell wf_boardD)
  with assms(1) show ?thesis
    by (simp add: wf_board_iff)
next
  case False
  have "updateCell f p g = g"
  proof (cases "fst p < numberOfRowes g")
    case True
    with False assms(1) have "length (cells g ! fst p) \<le> snd p"
      by (simp add: wf_board_iff in_bounds_def)
    then show ?thesis by (simp add: updateCell_def list_update_beyond)
  next
    case False
    with assms(1) have "length (cells g) \<le> fst p" by (simp add: wf_board_iff)
    then show ?thesis by (simp add: updateCell_def list_update_beyond)
  qed
  with assms(1) show ?thesis by simp
qed

subsection \<open>The scanned block\<close>

lemma set_scanRange: "set (scanRange n i) = {j. j < n \<and> i \<le> j + 1 \<and> j \<le> i + 1}"
proof -
  have "set (scanRange n i) = nat ` {max (int i - 1) 0 .. min (int i + 1) (int n - 1)}"
    by (simp add: scanRange_def)
  also have "\<dots> = {j. j < n \<and> i \<le> j + 1 \<and> j \<le> i + 1}"
  proof (rule set_eqI, rule iffI)
    fix j assume "j \<in> nat ` {max (int i - 1) 0 .. min (int i + 1) (int n - 1)}"
    then obtain k where "j = nat k" "max (int i - 1) 0 \<le> k" "k \<le> min (int i + 1) (int n - 1)"
      by auto
    then show "j \<in> {j. j < n \<and> i \<le> j + 1 \<and> j \<le> i + 1}" by auto
  next
    fix j assume "j \<in> {j. j < n \<and> i \<le> j + 1 \<and> j \<le> i + 1}"
    then have "max (int i - 1) 0 \<le> int j" "int j \<le> min (int i + 1) (int n - 1)" by auto
    then have "int j \<in> {max (int i - 1) 0 .. min (int i + 1) (int n - 1)}" by simp
    then have "nat (int j) \<in> nat ` {max (int i - 1) 0 .. min (int i + 1) (int n - 1)}"
      by (rule imageI)
    then show "j \<in> nat ` {max (int i - 1) 0 .. min (int i + 1) (int n - 1)}" by simp
  qed
  finally show ?thesis .
qed

lemma distinct_scanRange: "distinct (scanRange n i)"
  unfolding scanRange_def
  by (rule iffD2[OF distinct_map]) (auto simp: inj_on_def)

lemma set_neighbourhood:
  "set (neighbourhood g c) = {q. in_bounds g q \<and> near (cell_y c, cell_x c) q}"
  by (auto simp: neighbourhood_def set_scanRange in_bounds_def near_def)

lemma distinct_neighbourhood: "distinct (neighbourhood g c)"
  by (simp add: neighbourhood_def distinct_product distinct_scanRange)

subsection \<open>The end of a game\<close>

lemma revealMines_fields [simp]:
  "isGameFinished (revealMines g) = isGameFinished g"
  "numberOfRowes (revealMines g) = numberOfRowes g"
  "numberOfCols (revealMines g) = numberOfCols g"
  "numberOfMines (revealMines g) = numberOfMines g"
  "cellsToReveal (revealMines g) = cellsToReveal g"
  "revealedCells (revealMines g) = revealedCells g"
  "counter_value (revealMines g) = counter_value g"
  "reset_emotion (revealMines g) = reset_emotion g"
  "processed (revealMines g) = processed g"
  by (simp_all add: revealMines_def)

lemma in_bounds_revealMines [simp]: "in_bounds (revealMines g) q = in_bounds g q"
  by (simp add: in_bounds_def)

lemma cellAt_revealMines:
  assumes "wf_board g" "in_bounds g p"
  shows "cellAt (revealMines g) p =
           (if isMine (cellAt g p) then revealCell (cellAt g p) else cellAt g p)"
  using wf_boardD(1,2)[OF assms]
  by (simp add: cellAt_def revealMines_def)

lemma wf_board_revealMines:
  assumes "wf_board g"
  shows "wf_board (revealMines g)"
proof -
  have "cell_y (cellAt (revealMines g) q) = fst q \<and> cell_x (cellAt (revealMines g) q) = snd q"
    if "in_bounds g q" for q
    using that assms by (simp add: cellAt_revealMines wf_boardD revealCell_def)
  moreover have "length (cells (revealMines g)) = numberOfRowes g"
    using assms by (simp add: revealMines_def wf_board_iff)
  moreover have "\<forall>r < numberOfRowes g. length (cells (revealMines g) ! r) = numberOfCols g"
    using assms by (simp add: revealMines_def wf_board_iff)
  ultimately show ?thesis by (simp add: wf_board_iff)
qed

lemma endGame_fields [simp]:
  "isGameFinished (endGame w g) = True"
  "numberOfRowes (endGame w g) = numberOfRowes g"
  "numberOfCols (endGame w g) = numberOfCols g"
  "numberOfMines (endGame w g) = numberOfMines g"
  "cellsToReveal (endGame w g) = cellsToReveal g"
  "revealedCells (endGame w g) = revealedCells g"
  "counter_value (endGame w g) = counter_value g"
  "reset_emotion (endGame w g) = (if w then Positive else Negative)"
  "processed (endGame w g) = processed g"
  by (simp_all add: endGame_def Let_def)

lemma in_bounds_endGame [simp]: "in_bounds (endGame w g) q = in_bounds g q"
  by (simp add: in_bounds_def)

lemma cells_endGame_win [simp]: "cells (endGame True g) = cells g"
  by (simp add: endGame_def)

lemma cellAt_endGame_win [simp]: "cellAt (endGame True g) p = cellAt g p"
  by (simp add: cellAt_def)

lemma cellAt_endGame_loss:
  assumes "wf_board g" "in_bounds g p"
  shows "cellAt (endGame False g) p =
           (if isMine (cellAt g p) then revealCell (cellAt g p) else cellAt g p)"
proof -
  have "wf_board (g\<lparr>isGameFinished := True\<rparr>)" "in_bounds (g\<lparr>isGameFinished := True\<rparr>) p"
    using assms by (simp_all add: wf_board_def in_bounds_def)
  from cellAt_revealMines[OF this] show ?thesis
    by (simp add: endGame_def cellAt_def)
qed

lemma wf_board_endGame:
  assumes "wf_board g"
  shows "wf_board (endGame w g)"
proof -
  have a: "wf_board (g\<lparr>isGameFinished := True\<rparr>)"
    using assms by (simp add: wf_board_def)
  have "wf_board ((revealMines (g\<lparr>isGameFinished := True\<rparr>))\<lparr>reset_emotion := Negative\<rparr>)"
    using wf_board_revealMines[OF a] by (simp add: wf_board_def)
  moreover have "wf_board (g\<lparr>isGameFinished := True, reset_emotion := Positive\<rparr>)"
    using assms by (simp add: wf_board_def)
  ultimately show ?thesis by (simp add: endGame_def Let_def)
qed

subsection \<open>The cell of an event\<close>

lemma cellRef_in_bounds:
  assumes "wf_board g" "in_bounds g p"
  shows "cellRef g (fst (event_of p)) (snd (event_of p)) = Inr (Some p)"
  using wf_boardD(1,2)[OF assms] by (simp add: cellRef_def event_of_def)

lemma cellRef_out_of_bounds:
  assumes "wf_board g"
    and "\<not> (0 \<le> fst e \<and> fst e < int (numberOfRowes g) \<and> 0 \<le> snd e \<and> snd e < int (numberOfCols g))"
  shows "cellRef g (fst e) (snd e) = Inl TypeError \<or> cellRef g (fst e) (snd e) = Inr None"
proof (cases "0 \<le> fst e \<and> fst e < int (numberOfRowes g)")
  case True
  then have "nat (fst e) < numberOfRowes g" by auto
  with assms(1) have "length (cells g ! nat (fst e)) = numberOfCols g"
    by (simp add: wf_board_iff)
  with True assms show ?thesis by (auto simp: cellRef_def)
next
  case False
  with assms(1) show ?thesis by (auto simp: cellRef_def wf_board_iff)
qed

subsection \<open>A new game keeps what it sets\<close>

lemma placeMines_fields:
  assumes "placeMines m ds g = Some (Inr g')"
  shows "isGameFinished g' = isGameFinished g \<and> numberOfRowes g' = numberOfRowes g \<and>
         numberOfCols g' = numberOfCols g \<and> numberOfMines g' = numberOfMines g \<and>
         cellsToReveal g' = cellsToReveal g \<and> revealedCells g' = revealedCells g \<and>
         counter_value g' = counter_value g \<and> reset_emotion g' = reset_emotion g \<and>
         processed g' = processed g"
  using assms
proof (induction m ds g rule: placeMines.induct)
  case (1 ds g)
  then show ?case by simp
next
  case (2 m g)
  then show ?case by simp
next
  case (3 m d ds g)
  then show ?case by (auto split: if_splits)
qed

lemma newGame_unfold:
  "newGame rows cols mines ds g0 =
     (case placeMines mines ds
        (generateCells (g0\<lparr>numberOfMines := mines, numberOfCols := cols, numberOfRowes := rows,
           counter_value := int mines, cellsToReveal := int cols * int rows - int mines\<rparr>)) of
        None \<Rightarrow> None
      | Some (Inl (e, g5)) \<Rightarrow> Some (Inl (e, g5))
      | Some (Inr g5) \<Rightarrow>
          Some (Inr (g5\<lparr>reset_emotion := Neutral, isGameFinished := False, revealedCells := 0\<rparr>)))"
  by (simp add: newGame_def Let_def placeMinesInCells_def counter_setValue_def generateCells_def)

lemma newGame_fields:
  assumes "newGame rows cols mines ds g0 = Some (Inr g)"
  shows "numberOfRowes g = rows" "numberOfCols g = cols" "numberOfMines g = mines"
    "counter_value g = int mines" "cellsToReveal g = int cols * int rows - int mines"
    "revealedCells g = 0" "\<not> isGameFinished g" "reset_emotion g = Neutral"
proof -
  define g4 where "g4 = generateCells (g0\<lparr>numberOfMines := mines, numberOfCols := cols,
     numberOfRowes := rows, counter_value := int mines,
     cellsToReveal := int cols * int rows - int mines\<rparr>)"
  from assms obtain g5 where p: "placeMines mines ds g4 = Some (Inr g5)"
    and g: "g = g5\<lparr>reset_emotion := Neutral, isGameFinished := False, revealedCells := 0\<rparr>"
    unfolding newGame_unfold g4_def[symmetric]
    by (auto split: option.splits sum.splits)
  have f4: "numberOfRowes g4 = rows" "numberOfCols g4 = cols" "numberOfMines g4 = mines"
    "counter_value g4 = int mines" "cellsToReveal g4 = int cols * int rows - int mines"
    by (simp_all add: g4_def generateCells_def)
  from placeMines_fields[OF p] g f4
  show "numberOfRowes g = rows" "numberOfCols g = cols" "numberOfMines g = mines"
    "counter_value g = int mines" "cellsToReveal g = int cols * int rows - int mines"
    "revealedCells g = 0" "\<not> isGameFinished g" "reset_emotion g = Neutral"
    by simp_all
qed

subsection \<open>Right clicks\<close>

lemma counter_fields [simp]:
  "cells (counter_increment g) = cells g" "cells (counter_decrement g) = cells g"
  "numberOfRowes (counter_increment g) = numberOfRowes g"
  "numberOfRowes (counter_decrement g) = numberOfRowes g"
  "numberOfCols (counter_increment g) = numberOfCols g"
  "numberOfCols (counter_decrement g) = numberOfCols g"
  "counter_value (counter_increment g) = counter_value g + 1"
  "counter_value (counter_decrement g) = counter_value g - 1"
  by (simp_all add: counter_increment_def counter_decrement_def)

lemma wf_board_cong:
  "cells g' = cells g \<Longrightarrow> numberOfRowes g' = numberOfRowes g \<Longrightarrow>
   numberOfCols g' = numberOfCols g \<Longrightarrow> wf_board g' = wf_board g"
  by (simp add: wf_board_def)

lemma cellAt_cong: "cells g' = cells g \<Longrightarrow> cellAt g' p = cellAt g p"
  by (simp add: cellAt_def)

lemma in_bounds_cong:
  "numberOfRowes g' = numberOfRowes g \<Longrightarrow> numberOfCols g' = numberOfCols g \<Longrightarrow>
   in_bounds g' p = in_bounds g p"
  by (simp add: in_bounds_def)

lemma handleCellContextMenu_in_bounds:
  assumes "wf_board g" "in_bounds g p"
  shows "handleCellContextMenu g (event_of p) =
     Inr (if isReveal (cellAt g p) \<or> isGameFinished g then g
          else if isFlagged (cellAt g p) then updateCell toggleFlag p (counter_increment g)
          else if counter_value g \<noteq> 0 then updateCell toggleFlag p (counter_decrement g)
          else g)"
  unfolding handleCellContextMenu_def cellRef_in_bounds[OF assms] by simp

lemma flag_toggle:
  assumes "wf_board g" "in_bounds g p" "\<not> isReveal (cellAt g p)"
    and "cells h = cells g" "numberOfRowes h = numberOfRowes g" "numberOfCols h = numberOfCols g"
  shows "isFlagged (cellAt (updateCell toggleFlag p h) p) = (\<not> isFlagged (cellAt g p))"
    and "q \<noteq> p \<Longrightarrow> cellAt (updateCell toggleFlag p h) q = cellAt g q"
proof -
  have w: "wf_board h" "in_bounds h p"
    using assms wf_board_cong[of h g] in_bounds_cong[of h g p] by simp_all
  have c: "cellAt h r = cellAt g r" for r using assms(4) by (rule cellAt_cong)
  show "isFlagged (cellAt (updateCell toggleFlag p h) p) = (\<not> isFlagged (cellAt g p))"
    using assms(3) by (simp add: cellAt_updateCell[OF w] c toggleFlag_def)
  show "q \<noteq> p \<Longrightarrow> cellAt (updateCell toggleFlag p h) q = cellAt g q"
    by (simp add: cellAt_updateCell[OF w] c)
qed

subsection \<open>Processing a cell\<close>

lemma set_positions [simp]: "set (positions g) = {p. in_bounds g p}"
  by (auto simp: positions_def in_bounds_def)

lemma distinct_positions: "distinct (positions g)"
  by (simp add: positions_def distinct_product)

lemma length_positions: "length (positions g) = numberOfRowes g * numberOfCols g"
  by (simp add: positions_def)

lemma processCell_fields [simp]:
  "isGameFinished (processCell g p) = isGameFinished g"
  "numberOfRowes (processCell g p) = numberOfRowes g"
  "numberOfCols (processCell g p) = numberOfCols g"
  "numberOfMines (processCell g p) = numberOfMines g"
  "cellsToReveal (processCell g p) = cellsToReveal g"
  "revealedCells (processCell g p) = revealedCells g + 1"
  "counter_value (processCell g p) = counter_value g"
  "reset_emotion (processCell g p) = reset_emotion g"
  "processed (processCell g p) = p # processed g"
  by (simp_all add: processCell_def)

lemma in_bounds_processCell [simp]: "in_bounds (processCell g p) q = in_bounds g q"
  by (simp add: in_bounds_def)

lemma neighbourhood_cong:
  "numberOfRowes g' = numberOfRowes g \<Longrightarrow> numberOfCols g' = numberOfCols g \<Longrightarrow>
   neighbourhood g' c = neighbourhood g c"
  by (simp add: neighbourhood_def)

lemma wf_board_processCell:
  assumes "wf_board g"
  shows "wf_board (processCell g p)"
proof -
  let ?g1 = "updateCell (\<lambda>c. c\<lparr>cell_value := minesCount g p\<rparr>) p g"
  have 1: "wf_board ?g1" using assms by (rule wf_board_updateCell) simp_all
  have 2: "wf_board (updateCell revealCell p ?g1)"
    using 1 by (rule wf_board_updateCell) (simp_all add: revealCell_def)
  show ?thesis
    using 2 wf_board_cong[of "processCell g p" "updateCell revealCell p ?g1"]
    by (simp add: processCell_def)
qed

lemma cellAt_processCell:
  assumes "wf_board g" "in_bounds g p"
  shows "cellAt (processCell g p) q =
     (if q = p then (cellAt g p)\<lparr>cell_value := minesCount g p, isReveal := True\<rparr>
      else cellAt g q)"
proof -
  let ?g1 = "updateCell (\<lambda>c. c\<lparr>cell_value := minesCount g p\<rparr>) p g"
  have 1: "wf_board ?g1" using assms(1) by (rule wf_board_updateCell) simp_all
  have b: "in_bounds ?g1 p" using assms(2) by simp
  have "cellAt (processCell g p) q = cellAt (updateCell revealCell p ?g1) q"
    by (rule cellAt_cong) (simp add: processCell_def)
  also have "\<dots> = (if q = p then revealCell (cellAt ?g1 p) else cellAt ?g1 q)"
    by (rule cellAt_updateCell[OF 1 b])
  also have "\<dots> = (if q = p then (cellAt g p)\<lparr>cell_value := minesCount g p, isReveal := True\<rparr>
      else cellAt g q)"
    by (simp add: cellAt_updateCell[OF assms] revealCell_def)
  finally show ?thesis .
qed

lemma setCellValue_unfold:
  "setCellValue click g p =
     (if cell_value (cellAt (processCell g p) p) = 0
      then revealAdjacent click (neighbourhood g (cellAt g p)) (processCell g p)
      else Some (processCell g p))"
proof -
  have n: "neighbourhood (processCell g p) (cellAt g p) = neighbourhood g (cellAt g p)"
    by (rule neighbourhood_cong) simp_all
  show ?thesis
    unfolding setCellValue_def Let_def
    unfolding minesCount_def[symmetric]
    unfolding updateCell_fields
    unfolding processCell_def[symmetric]
    unfolding n ..
qed

lemma near_refl [simp]: "near p p"
  by (simp add: near_def)

lemma near_sym: "near p q \<Longrightarrow> near q p"
  by (simp add: near_def)

lemma set_neighbourhood_wf:
  assumes "wf_board g" "in_bounds g p"
  shows "set (neighbourhood g (cellAt g p)) = {q. in_bounds g q \<and> near p q}"
  using wf_boardD(3,4)[OF assms] by (simp add: set_neighbourhood)

lemma minesCount_pos:
  assumes "wf_board g" "in_bounds g p" "isMine (cellAt g p)"
  shows "0 < minesCount g p"
proof -
  have "p \<in> set (filter (\<lambda>q. isMine (cellAt g q)) (neighbourhood g (cellAt g p)))"
    using assms by (simp add: set_neighbourhood_wf)
  then show ?thesis
    unfolding minesCount_def by (rule length_pos_if_in_set)
qed

lemma handleCellClick_in_bounds:
  assumes "wf_board g" "in_bounds g p"
  shows "handleCellClick fuel g (event_of p) = map_option Inr (clickCell fuel g p)"
  unfolding handleCellClick_def cellRef_in_bounds[OF assms] by simp

lemma clickCell_mine:
  assumes "wf_board g" "in_bounds g p" "\<not> isGameFinished g" "\<not> isFlagged (cellAt g p)"
    "isMine (cellAt g p)"
  shows "clickCell (Suc n) g p = Some (processCell (endGame False g) p)"
proof -
  let ?g1 = "endGame False g"
  have w1: "wf_board ?g1" using assms(1) by (rule wf_board_endGame)
  have b1: "in_bounds ?g1 p" using assms(2) by simp
  have m1: "isMine (cellAt ?g1 p)"
    using assms by (simp add: cellAt_endGame_loss revealCell_def)
  have "0 < minesCount ?g1 p" using w1 b1 m1 by (rule minesCount_pos)
  then have "cell_value (cellAt (processCell ?g1 p) p) \<noteq> 0"
    by (simp add: cellAt_processCell[OF w1 b1])
  then have "setCellValue (clickCell n) ?g1 p = Some (processCell ?g1 p)"
    by (simp add: setCellValue_unfold)
  with assms show ?thesis by simp
qed

subsection \<open>The fresh grid and its mines\<close>

lemma generateCells_fields [simp]:
  "isGameFinished (generateCells g) = isGameFinished g"
  "numberOfRowes (generateCells g) = numberOfRowes g"
  "numberOfCols (generateCells g) = numberOfCols g"
  "numberOfMines (generateCells g) = numberOfMines g"
  "cellsToReveal (generateCells g) = cellsToReveal g"
  "revealedCells (generateCells g) = revealedCells g"
  "counter_value (generateCells g) = counter_value g"
  "reset_emotion (generateCells g) = reset_emotion g"
  "processed (generateCells g) = processed g"
  by (simp_all add: generateCells_def)

lemma in_bounds_generateCells [simp]: "in_bounds (generateCells g) p = in_bounds g p"
  by (simp add: in_bounds_def)

lemma cellAt_generateCells:
  "in_bounds g p \<Longrightarrow> cellAt (generateCells g) p = newCell (snd p) (fst p)"
  by (simp add: cellAt_def generateCells_def in_bounds_def)

lemma wf_board_generateCells: "wf_board (generateCells g)"
  by (simp add: wf_board_def generateCells_def newCell_def)

lemma finite_in_bounds [simp]: "finite {p. in_bounds g p}"
  unfolding set_positions[symmetric] by (rule finite_set)

lemma card_in_bounds: "card {p. in_bounds g p} = numberOfRowes g * numberOfCols g"
  unfolding set_positions[symmetric]
  by (simp only: distinct_card[OF distinct_positions] length_positions)

lemma finite_minePlaces [simp]: "finite (minePlaces g)"
  by (rule finite_subset[of _ "{p. in_bounds g p}"]) (auto simp: minePlaces_def)

lemma minePlaces_generateCells: "minePlaces (generateCells g) = {}"
  by (auto simp: minePlaces_def mineAt_def cellAt_generateCells newCell_def)

lemma concat_cells:
  assumes "wf_board g"
  shows "concat (cells g) = map (cellAt g) (positions g)"
proof -
  have "map (\<lambda>r. cells g ! r) [0..<length (cells g)] = cells g" by (rule map_nth)
  then have rows: "cells g = map (\<lambda>r. cells g ! r) [0..<numberOfRowes g]"
    using assms by (simp add: wf_board_iff)
  have row: "cells g ! r = map (\<lambda>c. cellAt g (r, c)) [0..<numberOfCols g]"
    if "r < numberOfRowes g" for r
  proof -
    have "length (cells g ! r) = numberOfCols g" using assms that by (simp add: wf_board_iff)
    then show ?thesis
      by (simp add: cellAt_def list_eq_iff_nth_eq)
  qed
  have "concat (cells g) = concat (map (\<lambda>r. cells g ! r) [0..<numberOfRowes g])"
    using rows by simp
  also have "\<dots> = concat (map (\<lambda>r. map (\<lambda>c. cellAt g (r, c)) [0..<numberOfCols g])
      [0..<numberOfRowes g])"
    by (intro arg_cong[where f = concat] map_cong refl) (simp add: row)
  also have "\<dots> = map (cellAt g) (positions g)"
    by (simp add: positions_def List.product_concat_map map_concat comp_def)
  finally show ?thesis .
qed

lemma mineCount_card:
  assumes "wf_board g"
  shows "mineCount g = card (minePlaces g)"
proof -
  have "mineCount g = length (filter (\<lambda>p. mineAt p g) (positions g))"
    by (simp add: mineCount_def concat_cells[OF assms] filter_map comp_def mineAt_def)
  also have "\<dots> = card (set (filter (\<lambda>p. mineAt p g) (positions g)))"
    by (rule distinct_card[symmetric]) (simp add: distinct_positions)
  also have "set (filter (\<lambda>p. mineAt p g) (positions g)) = minePlaces g"
    by (simp add: minePlaces_def)
  finally show ?thesis .
qed

lemma minePlaces_addMine:
  assumes "wf_board g" "in_bounds g d"
  shows "minePlaces (updateCell addMine d g) = insert d (minePlaces g)"
  using assms
  by (auto simp: minePlaces_def mineAt_def cellAt_updateCell addMine_def)

lemma placeMines_places:
  assumes "placeMines m ds g = Some (Inr g')" "wf_board g"
  shows "wf_board g' \<and> card (minePlaces g') = card (minePlaces g) + m \<and>
         (\<forall>p. in_bounds g p \<longrightarrow> cellAt g' p = (cellAt g p)\<lparr>isMine := isMine (cellAt g' p)\<rparr>)"
  using assms
proof (induction m ds g rule: placeMines.induct)
  case (1 ds g)
  then show ?case by simp
next
  case (2 m g)
  then show ?case by simp
next
  case (3 m d ds g)
  from "3.prems" have valid: "fst d < length (cells g)" "snd d < length (cells g ! fst d)"
    by (auto split: if_splits)
  with "3.prems"(2) have inb: "in_bounds g d"
    by (simp add: wf_board_iff in_bounds_def)
  show ?case
  proof (cases "isMine (cellAt g d)")
    case True
    with "3.prems" valid have "placeMines (Suc m) ds g = Some (Inr g')" by simp
    with "3.IH"(2) True valid "3.prems"(2)
    show ?thesis by simp
  next
    case False
    let ?g1 = "updateCell addMine d g"
    from False "3.prems" valid have run: "placeMines m ds ?g1 = Some (Inr g')" by simp
    have w1: "wf_board ?g1"
      using "3.prems"(2) by (rule wf_board_updateCell) (simp_all add: addMine_def)
    from "3.IH"(1) False run w1 valid
    have ih: "wf_board g'" "card (minePlaces g') = card (minePlaces ?g1) + m"
      "\<And>p. in_bounds g p \<Longrightarrow> cellAt g' p = (cellAt ?g1 p)\<lparr>isMine := isMine (cellAt g' p)\<rparr>"
      by (simp_all del: split_paired_All)
    have "d \<notin> minePlaces g" using False by (simp add: minePlaces_def mineAt_def)
    then have "card (minePlaces ?g1) = Suc (card (minePlaces g))"
      by (simp add: minePlaces_addMine[OF "3.prems"(2) inb])
    with ih(2) have c: "card (minePlaces g') = card (minePlaces g) + Suc m" by simp
    have "cellAt g' p = (cellAt g p)\<lparr>isMine := isMine (cellAt g' p)\<rparr>" if "in_bounds g p" for p
      using ih(3)[OF that]
      by (simp add: cellAt_updateCell[OF "3.prems"(2) inb] addMine_def split: if_splits)
    with ih(1) c show ?thesis by simp
  qed
qed

lemma placeMines_completes:
  assumes "wf_board g" "distinct ds" "set ds \<subseteq> {p. in_bounds g p} - minePlaces g"
  shows "\<exists>g'. placeMines (length ds) ds g = Some (Inr g')"
  using assms
proof (induction ds arbitrary: g)
  case Nil
  then show ?case by simp
next
  case (Cons d ds)
  from Cons.prems have inb: "in_bounds g d" and nm: "\<not> isMine (cellAt g d)"
    by (auto simp: minePlaces_def mineAt_def)
  let ?g1 = "updateCell addMine d g"
  have w1: "wf_board ?g1"
    using Cons.prems(1) by (rule wf_board_updateCell) (simp_all add: addMine_def)
  have "set ds \<subseteq> {p. in_bounds ?g1 p} - minePlaces ?g1"
    using Cons.prems by (auto simp: minePlaces_addMine[OF Cons.prems(1) inb])
  with Cons.IH[OF w1] Cons.prems(2)
  obtain g' where "placeMines (length ds) ds ?g1 = Some (Inr g')" by auto
  with nm wf_boardD(1,2)[OF Cons.prems(1) inb] show ?case by simp
qed

lemma placement_can_complete:
  assumes "numberOfMines g \<le> numberOfRowes g * numberOfCols g"
  shows "\<exists>g'. placeMinesInCells (take (numberOfMines g) (positions g)) (generateCells g)
           = Some (Inr g')"
proof -
  let ?ds = "take (numberOfMines g) (positions g)"
  have p: "positions (generateCells g) = positions g" by (simp add: positions_def)
  have l: "length ?ds = numberOfMines g" using assms by (simp add: length_positions)
  have d: "distinct ?ds" by (simp add: distinct_positions)
  have s: "set ?ds \<subseteq> {p. in_bounds (generateCells g) p} - minePlaces (generateCells g)"
    using set_take_subset[of "numberOfMines g" "positions g"]
    by (auto simp: minePlaces_generateCells)
  from placeMines_completes[OF wf_board_generateCells d s] l
  show ?thesis by (simp add: placeMinesInCells_def)
qed

lemma newGame_board:
  assumes "newGame rows cols mines ds g0 = Some (Inr g)"
  shows "wf_board g" "card (minePlaces g) = mines"
    "\<And>p. in_bounds g p \<Longrightarrow> \<not> isReveal (cellAt g p) \<and> \<not> isFlagged (cellAt g p)"
proof -
  define g4 where "g4 = generateCells (g0\<lparr>numberOfMines := mines, numberOfCols := cols,
     numberOfRowes := rows, counter_value := int mines,
     cellsToReveal := int cols * int rows - int mines\<rparr>)"
  from assms obtain g5 where p: "placeMines mines ds g4 = Some (Inr g5)"
    and g: "g = g5\<lparr>reset_emotion := Neutral, isGameFinished := False, revealedCells := 0\<rparr>"
    unfolding newGame_unfold g4_def[symmetric]
    by (auto split: option.splits sum.splits)
  have w4: "wf_board g4" unfolding g4_def by (rule wf_board_generateCells)
  have m4: "minePlaces g4 = {}" unfolding g4_def by (rule minePlaces_generateCells)
  note pl = placeMines_places[OF p w4]
  note f = placeMines_fields[OF p]
  have cg: "cells g = cells g5" "numberOfRowes g = numberOfRowes g5"
    "numberOfCols g = numberOfCols g5"
    using g by simp_all
  have mp: "minePlaces g = minePlaces g5"
    using cg by (simp add: minePlaces_def positions_def mineAt_def cellAt_def in_bounds_def)
  show "wf_board g" using pl wf_board_cong[OF cg] by simp
  show "card (minePlaces g) = mines" using pl m4 mp by simp
  show "\<not> isReveal (cellAt g p) \<and> \<not> isFlagged (cellAt g p)" if "in_bounds g p" for p
  proof -
    have b4: "in_bounds g4 p" using that cg f by (simp add: in_bounds_def)
    then have n: "cellAt g4 p = newCell (snd p) (fst p)"
      unfolding g4_def by (simp add: cellAt_generateCells)
    from pl b4 have e: "cellAt g5 p = (cellAt g4 p)\<lparr>isMine := isMine (cellAt g5 p)\<rparr>"
      by blast
    have "isReveal (cellAt g5 p) = isReveal (cellAt g4 p)"
      "isFlagged (cellAt g5 p) = isFlagged (cellAt g4 p)"
      using arg_cong[OF e, of isReveal] arg_cong[OF e, of isFlagged] by simp_all
    with n have "\<not> isReveal (cellAt g5 p) \<and> \<not> isFlagged (cellAt g5 p)"
      by (simp add: newCell_def)
    then show ?thesis using cellAt_cong[OF cg(1)] by simp
  qed
qed

subsection \<open>Invariants of a left click\<close>

lemma revealAdjacent_invariant:
  assumes click: "\<And>h q h'. click h q = Some h' \<Longrightarrow> I h \<Longrightarrow> in_bounds h q \<Longrightarrow>
      I h' \<and> numberOfRowes h' = numberOfRowes h \<and> numberOfCols h' = numberOfCols h"
    and run: "revealAdjacent click qs g = Some g'"
    and "I g" "\<forall>q \<in> set qs. in_bounds g q"
  shows "I g' \<and> numberOfRowes g' = numberOfRowes g \<and> numberOfCols g' = numberOfCols g"
  using run assms(3,4)
proof (induction qs arbitrary: g)
  case Nil
  then show ?case by simp
next
  case (Cons q qs)
  show ?case
  proof (cases "isReveal (cellAt g q)")
    case True
    with Cons.prems have "revealAdjacent click qs g = Some g'" by simp
    from Cons.IH[OF this] Cons.prems show ?thesis by simp
  next
    case False
    with Cons.prems obtain h where h: "click g q = Some h"
      and r: "revealAdjacent click qs h = Some g'"
      by (auto split: option.splits)
    from click[OF h] Cons.prems
    have ih: "I h" "numberOfRowes h = numberOfRowes g" "numberOfCols h = numberOfCols g"
      by simp_all
    have "\<forall>q \<in> set qs. in_bounds h q"
      using Cons.prems(3) ih(2,3) by (simp add: in_bounds_def)
    from Cons.IH[OF r ih(1) this] ih show ?thesis by simp
  qed
qed

lemma clickCell_invariant:
  assumes proc: "\<And>h q. I h \<Longrightarrow> in_bounds h q \<Longrightarrow> I (processCell h q)"
    and fin: "\<And>h w. I h \<Longrightarrow> I (endGame w h)"
    and run: "clickCell n g p = Some g'"
    and "I g" "in_bounds g p"
  shows "I g' \<and> numberOfRowes g' = numberOfRowes g \<and> numberOfCols g' = numberOfCols g"
  using run assms(4,5)
proof (induction n arbitrary: g p g')
  case 0
  then show ?case by simp
next
  case (Suc n)
  show ?case
  proof (cases "isGameFinished g \<or> isFlagged (cellAt g p)")
    case True
    with Suc.prems show ?thesis by simp
  next
    case False
    define g1 where "g1 = (if isMine (cellAt g p) then endGame False g else g)"
    define g3 where "g3 = processCell g1 p"
    have I1: "I g1" and d1: "numberOfRowes g1 = numberOfRowes g" "numberOfCols g1 = numberOfCols g"
      using Suc.prems(2) fin by (simp_all add: g1_def)
    have b1: "in_bounds g1 p" using Suc.prems(3) d1 by (simp add: in_bounds_def)
    have I3: "I g3" unfolding g3_def using I1 b1 by (rule proc)
    have d3: "numberOfRowes g3 = numberOfRowes g" "numberOfCols g3 = numberOfCols g"
      using d1 by (simp_all add: g3_def)
    from False Suc.prems(1) obtain g4 where s: "setCellValue (clickCell n) g1 p = Some g4"
      and g': "g' = (if revealedCells g4 = cellsToReveal g4 \<and> \<not> isGameFinished g4
                     then endGame True g4 else g4)"
      by (auto simp: g1_def split: option.splits)
    have "I g4 \<and> numberOfRowes g4 = numberOfRowes g3 \<and> numberOfCols g4 = numberOfCols g3"
    proof (cases "cell_value (cellAt g3 p) = 0")
      case True
      with s have r: "revealAdjacent (clickCell n) (neighbourhood g1 (cellAt g1 p)) g3 = Some g4"
        by (simp add: setCellValue_unfold g3_def)
      have "\<forall>q \<in> set (neighbourhood g1 (cellAt g1 p)). in_bounds g3 q"
        using d1 d3 by (simp add: set_neighbourhood in_bounds_def)
      from revealAdjacent_invariant[of "clickCell n" I, OF Suc.IH r I3 this]
      show ?thesis by simp
    next
      case False
      with s have "g4 = g3" by (simp add: setCellValue_unfold g3_def)
      with I3 show ?thesis by simp
    qed
    with d3 g' fin show ?thesis by simp
  qed
qed

lemma frame_refl: "wf_board g \<Longrightarrow> frame g g"
  by (simp add: frame_def)

lemma frame_in_bounds: "frame g g' \<Longrightarrow> in_bounds g' q = in_bounds g q"
  by (simp add: frame_def in_bounds_def)

lemma frame_trans:
  assumes "frame a b" "frame b c"
  shows "frame a c"
proof -
  have "in_bounds b q = in_bounds a q" for q using assms(1) by (rule frame_in_bounds)
  with assms show ?thesis
    unfolding frame_def by (simp del: split_paired_All)
qed

lemma frame_processCell:
  assumes "wf_board g" "in_bounds g p"
  shows "frame g (processCell g p)"
  using assms
  by (simp add: frame_def wf_board_processCell cellAt_processCell del: split_paired_All)

lemma frame_endGame:
  assumes "wf_board g"
  shows "frame g (endGame w g)"
proof (cases w)
  case True
  with assms wf_board_endGame[OF assms, of True] show ?thesis
    by (simp add: frame_def del: split_paired_All)
next
  case False
  with assms wf_board_endGame[OF assms, of False] show ?thesis
    by (simp add: frame_def cellAt_endGame_loss revealCell_def del: split_paired_All)
qed

lemma frame_wf: "frame g g' \<Longrightarrow> wf_board g'"
  by (simp add: frame_def)

lemma clickCell_frame:
  assumes "clickCell n g p = Some g'" "wf_board g" "in_bounds g p"
  shows "frame g g'"
proof -
  have "frame g g' \<and> numberOfRowes g' = numberOfRowes g \<and> numberOfCols g' = numberOfCols g"
  proof (rule clickCell_invariant[where I = "frame g", OF _ _ assms(1) _ assms(3)])
    fix h q assume h: "frame g h" "in_bounds h q"
    from frame_processCell[OF frame_wf[OF h(1)] h(2)] h(1)
    show "frame g (processCell h q)" by (blast intro: frame_trans)
  next
    fix h w assume h: "frame g h"
    from frame_endGame[OF frame_wf[OF h], of w] h
    show "frame g (endGame w h)" by (blast intro: frame_trans)
  next
    show "frame g g" using assms(2) by (rule frame_refl)
  qed
  then show ?thesis ..
qed

subsection \<open>The count of the scanned block and the adjacency count\<close>

lemma length_filter_card:
  "distinct xs \<Longrightarrow> length (filter P xs) = card {x \<in> set xs. P x}"
  using distinct_card[of "filter P xs"] by simp

lemma minesCount_card:
  assumes "wf_board g" "in_bounds g p"
  shows "minesCount g p = card {q. in_bounds g q \<and> near p q \<and> mineAt q g}"
proof -
  have "minesCount g p =
      card {q \<in> set (neighbourhood g (cellAt g p)). isMine (cellAt g q)}"
    unfolding minesCount_def by (rule length_filter_card) (rule distinct_neighbourhood)
  also have "{q \<in> set (neighbourhood g (cellAt g p)). isMine (cellAt g q)} =
      {q. in_bounds g q \<and> near p q \<and> mineAt q g}"
    by (auto simp: set_neighbourhood_wf[OF assms] mineAt_def)
  finally show ?thesis .
qed

lemma adjacentHazards_card:
  "adjacentHazards g p = card {q. in_bounds g q \<and> q \<noteq> p \<and> near p q \<and> mineAt q g}"
proof -
  have d: "distinct (neighbours g p)"
    by (simp add: neighbours_def distinct_positions)
  have "adjacentHazards g p = card {q \<in> set (neighbours g p). mineAt q g}"
    unfolding adjacentHazards_def using d by (rule length_filter_card)
  also have "{q \<in> set (neighbours g p). mineAt q g} =
      {q. in_bounds g q \<and> q \<noteq> p \<and> near p q \<and> mineAt q g}"
    by (auto simp: neighbours_def)
  finally show ?thesis .
qed

lemma minesCount_adjacentHazards:
  assumes "wf_board g" "in_bounds g p"
  shows "minesCount g p = adjacentHazards g p + (if mineAt p g then 1 else 0)"
proof -
  let ?A = "{q. in_bounds g q \<and> q \<noteq> p \<and> near p q \<and> mineAt q g}"
  let ?M = "{q. in_bounds g q \<and> near p q \<and> mineAt q g}"
  have fin: "finite ?A"
    by (rule finite_subset[of _ "{q. in_bounds g q}"]) auto
  show ?thesis
  proof (cases "mineAt p g")
    case True
    then have "?M = insert p ?A" using assms(2) by auto
    moreover have "p \<notin> ?A" by simp
    ultimately have "card ?M = Suc (card ?A)" using fin by simp
    with True show ?thesis
      by (simp add: minesCount_card[OF assms] adjacentHazards_card)
  next
    case False
    then have "?M = ?A" by auto
    with False show ?thesis
      by (simp add: minesCount_card[OF assms] adjacentHazards_card)
  qed
qed

lemma near_box:
  "{q. q \<noteq> p \<and> near p q} \<subseteq> ({fst p - 1 .. fst p + 1} \<times> {snd p - 1 .. snd p + 1}) - {p}"
  by (auto simp: near_def)

lemma card_near_le: "card {q. q \<noteq> p \<and> near p q} \<le> 8"
proof -
  let ?B = "{fst p - 1 .. fst p + 1} \<times> {snd p - 1 .. snd p + 1}"
  have "p \<in> ?B" by (cases p) auto
  then have "card (?B - {p}) = card ?B - 1" by simp
  moreover have "card ?B \<le> 9"
  proof -
    have "card {fst p - 1 .. fst p + 1} \<le> 3" "card {snd p - 1 .. snd p + 1} \<le> 3" by simp_all
    then have "card {fst p - 1 .. fst p + 1} * card {snd p - 1 .. snd p + 1} \<le> 3 * 3"
      by (rule mult_le_mono)
    then show ?thesis by (simp add: card_cartesian_product)
  qed
  ultimately have "card (?B - {p}) \<le> 8" by linarith
  moreover have "card {q. q \<noteq> p \<and> near p q} \<le> card (?B - {p})"
    by (rule card_mono[OF _ near_box]) simp
  ultimately show ?thesis by simp
qed

lemma adjacentHazards_le: "adjacentHazards g p \<le> 8"
proof -
  have "card {q. in_bounds g q \<and> q \<noteq> p \<and> near p q \<and> mineAt q g}
      \<le> card {q. q \<noteq> p \<and> near p q}"
  proof (rule card_mono)
    have "finite (({fst p - 1 .. fst p + 1} \<times> {snd p - 1 .. snd p + 1}) - {p})" by simp
    with near_box show "finite {q. q \<noteq> p \<and> near p q}" by (rule finite_subset)
  qed auto
  with card_near_le[of p] show ?thesis by (simp add: adjacentHazards_card)
qed

lemma adjacentHazards_frame:
  assumes "frame g g'"
  shows "adjacentHazards g' p = adjacentHazards g p"
proof -
  have "in_bounds g' q = in_bounds g q" for q using assms by (rule frame_in_bounds)
  moreover have "in_bounds g q \<Longrightarrow> mineAt q g' = mineAt q g" for q
    using assms by (simp add: frame_def mineAt_def del: split_paired_All)
  ultimately have "{q. in_bounds g' q \<and> q \<noteq> p \<and> near p q \<and> mineAt q g'} =
      {q. in_bounds g q \<and> q \<noteq> p \<and> near p q \<and> mineAt q g}"
    by blast
  then show ?thesis by (simp add: adjacentHazards_card)
qed

subsection \<open>Invariants of a request\<close>

lemma cellRef_Some:
  assumes "wf_board g" "cellRef g r c = Inr (Some p)"
  shows "in_bounds g p"
proof -
  from assms(2) have r: "0 \<le> r" "r < int (length (cells g))"
    by (auto simp: cellRef_def split: if_splits)
  with assms(2) have c: "0 \<le> c" "c < int (length (cells g ! nat r))" and p: "p = (nat r, nat c)"
    by (auto simp: cellRef_def split: if_splits)
  from r assms(1) have "nat r < numberOfRowes g" by (simp add: wf_board_iff)
  moreover with c assms(1) have "nat c < numberOfCols g" by (simp add: wf_board_iff)
  ultimately show ?thesis by (simp add: p in_bounds_def)
qed

lemma dispatch_invariant:
  assumes d: "dispatch fuel req g = Some res" and w: "wf_board g" and i: "I g"
    and click: "\<And>p g'. in_bounds g p \<Longrightarrow> clickCell fuel g p = Some g' \<Longrightarrow> I g'"
    and flag: "\<And>p h. in_bounds g p \<Longrightarrow> \<not> isReveal (cellAt g p) \<Longrightarrow>
        h = counter_increment g \<or> h = counter_decrement g \<Longrightarrow> I (updateCell toggleFlag p h)"
  shows "I (state_after res)"
proof (cases req)
  case (Click e)
  show ?thesis
  proof (cases "cellRef g (fst e) (snd e)")
    case (Inl err)
    with d Click i show ?thesis
      by (auto simp: dispatch_def handleCellClick_def state_after_def)
  next
    case (Inr po)
    show ?thesis
    proof (cases po)
      case None
      with d Click Inr i show ?thesis
        by (auto simp: dispatch_def handleCellClick_def state_after_def)
    next
      case (Some p)
      with Inr have "in_bounds g p" using cellRef_Some[OF w] by simp
      moreover from d Click Inr Some obtain g' where "clickCell fuel g p = Some g'" "res = Inr g'"
        by (auto simp: dispatch_def handleCellClick_def)
      ultimately show ?thesis using click by (simp add: state_after_def)
    qed
  qed
next
  case (ContextMenu e)
  show ?thesis
  proof (cases "cellRef g (fst e) (snd e)")
    case (Inl err)
    with d ContextMenu i show ?thesis
      by (auto simp: dispatch_def handleCellContextMenu_def state_after_def)
  next
    case (Inr po)
    show ?thesis
    proof (cases po)
      case None
      with d ContextMenu Inr i show ?thesis
        by (auto simp: dispatch_def handleCellContextMenu_def state_after_def)
    next
      case (Some p)
      with Inr have b: "in_bounds g p" using cellRef_Some[OF w] by simp
      from d ContextMenu Inr Some have r: "res = Inr (if isReveal (cellAt g p) \<or> isGameFinished g then g
               else if isFlagged (cellAt g p) then updateCell toggleFlag p (counter_increment g)
               else if counter_value g \<noteq> 0 then updateCell toggleFlag p (counter_decrement g)
               else g)"
        by (auto simp: dispatch_def handleCellContextMenu_def)
      show ?thesis
        unfolding r using i flag[OF b] by (simp add: state_after_def)
    qed
  qed
qed

lemma wf_board_toggleFlag:
  assumes "wf_board g" "cells h = cells g" "numberOfRowes h = numberOfRowes g"
    "numberOfCols h = numberOfCols g"
  shows "wf_board (updateCell toggleFlag p h)"
proof -
  have "wf_board h" using assms wf_board_cong[of h g] by simp
  then show ?thesis by (rule wf_board_updateCell) (simp_all add: toggleFlag_def)
qed

lemma cellAt_toggleFlag:
  assumes "wf_board g" "in_bounds g p" "cells h = cells g" "numberOfRowes h = numberOfRowes g"
    "numberOfCols h = numberOfCols g"
  shows "cellAt (updateCell toggleFlag p h) q =
           (if q = p then toggleFlag (cellAt g p) else cellAt g q)"
proof -
  have w: "wf_board h" "in_bounds h p"
    using assms wf_board_cong[of h g] in_bounds_cong[of h g p] by simp_all
  have c: "cellAt h r = cellAt g r" for r using assms(3) by (rule cellAt_cong)
  show ?thesis by (simp add: cellAt_updateCell[OF w] c)
qed

lemma adjacentHazards_cong:
  assumes "numberOfRowes g' = numberOfRowes g" "numberOfCols g' = numberOfCols g"
    and "\<And>q. in_bounds g q \<Longrightarrow> isMine (cellAt g' q) = isMine (cellAt g q)"
  shows "adjacentHazards g' p = adjacentHazards g p"
proof -
  have "in_bounds g' q = in_bounds g q" for q using assms(1,2) by (rule in_bounds_cong)
  moreover have "in_bounds g q \<Longrightarrow> mineAt q g' = mineAt q g" for q
    using assms(3) by (simp add: mineAt_def)
  ultimately have "{q. in_bounds g' q \<and> q \<noteq> p \<and> near p q \<and> mineAt q g'} =
      {q. in_bounds g q \<and> q \<noteq> p \<and> near p q \<and> mineAt q g}"
    by blast
  then show ?thesis by (simp add: adjacentHazards_card)
qed

lemma values_ok_processCell:
  assumes "wf_board g" "values_ok g" "in_bounds g q"
  shows "values_ok (processCell g q)"
proof -
  note f = frame_processCell[OF assms(1,3)]
  have a: "adjacentHazards (processCell g q) p = adjacentHazards g p" for p
    using f by (rule adjacentHazards_frame)
  show ?thesis
    unfolding values_ok_def
  proof (intro allI impI)
    fix p assume p: "in_bounds (processCell g q) p \<and> revealedAt p (processCell g q) \<and>
        \<not> mineAt p (processCell g q)"
    show "valueAt p (processCell g q) = adjacentHazards (processCell g q) p"
    proof (cases "p = q")
      case True
      with p have "\<not> mineAt q g"
        by (simp add: mineAt_def cellAt_processCell[OF assms(1,3)])
      with True show ?thesis
        by (simp add: a valueAt_def cellAt_processCell[OF assms(1,3)]
            minesCount_adjacentHazards[OF assms(1,3)])
    next
      case False
      with p have "in_bounds g p \<and> revealedAt p g \<and> \<not> mineAt p g"
        by (simp add: mineAt_def revealedAt_def cellAt_processCell[OF assms(1,3)])
      with assms(2) have "valueAt p g = adjacentHazards g p"
        unfolding values_ok_def by blast
      with False show ?thesis
        by (simp add: a valueAt_def cellAt_processCell[OF assms(1,3)])
    qed
  qed
qed

lemma values_ok_endGame:
  assumes "wf_board g" "values_ok g"
  shows "values_ok (endGame w g)"
proof -
  note f = frame_endGame[OF assms(1), of w]
  have a: "adjacentHazards (endGame w g) p = adjacentHazards g p" for p
    using f by (rule adjacentHazards_frame)
  have c: "cellAt (endGame w g) p = cellAt g p" if "in_bounds g p" "\<not> isMine (cellAt g p)" for p
    using that by (cases w) (simp_all add: cellAt_endGame_loss[OF assms(1)])
  show ?thesis
    unfolding values_ok_def
  proof (intro allI impI)
    fix p assume p: "in_bounds (endGame w g) p \<and> revealedAt p (endGame w g) \<and>
        \<not> mineAt p (endGame w g)"
    then have b: "in_bounds g p" by simp
    with f p have "\<not> isMine (cellAt g p)"
      by (simp add: frame_def mineAt_def del: split_paired_All)
    note c[OF b this]
    with p b \<open>\<not> isMine (cellAt g p)\<close> have "in_bounds g p \<and> revealedAt p g \<and> \<not> mineAt p g"
      by (simp add: revealedAt_def mineAt_def)
    with assms(2) have "valueAt p g = adjacentHazards g p"
      unfolding values_ok_def by blast
    with c[OF b \<open>\<not> isMine (cellAt g p)\<close>] show "valueAt p (endGame w g) = adjacentHazards (endGame w g) p"
      by (simp add: a valueAt_def)
  qed
qed

lemma values_ok_toggleFlag:
  assumes "wf_board g" "values_ok g" "in_bounds g p"
    and h: "cells h = cells g" "numberOfRowes h = numberOfRowes g" "numberOfCols h = numberOfCols g"
  shows "values_ok (updateCell toggleFlag p h)"
proof -
  let ?g' = "updateCell toggleFlag p h"
  note c = cellAt_toggleFlag[OF assms(1,3) h]
  have s: "isMine (cellAt ?g' q) = isMine (cellAt g q)"
    "isReveal (cellAt ?g' q) = isReveal (cellAt g q)"
    "cell_value (cellAt ?g' q) = cell_value (cellAt g q)" for q
    by (simp_all add: c toggleFlag_def)
  have a: "adjacentHazards ?g' q = adjacentHazards g q" for q
    by (rule adjacentHazards_cong) (simp_all add: h s)
  have b: "in_bounds ?g' q = in_bounds g q" for q
    by (simp add: in_bounds_def h)
  show ?thesis
    using assms(2) unfolding values_ok_def revealedAt_def mineAt_def valueAt_def s a b .
qed

lemma clickCell_values_ok:
  assumes "clickCell n g p = Some g'" "wf_board g" "values_ok g" "in_bounds g p"
  shows "wf_board g' \<and> values_ok g'"
proof -
  have "(wf_board g' \<and> values_ok g') \<and>
      numberOfRowes g' = numberOfRowes g \<and> numberOfCols g' = numberOfCols g"
  proof (rule clickCell_invariant[where I = "\<lambda>h. wf_board h \<and> values_ok h",
        OF _ _ assms(1) _ assms(4)])
    fix h q assume "wf_board h \<and> values_ok h" "in_bounds h q"
    then show "wf_board (processCell h q) \<and> values_ok (processCell h q)"
      by (simp add: wf_board_processCell values_ok_processCell)
  next
    fix h w assume "wf_board h \<and> values_ok h"
    then show "wf_board (endGame w h) \<and> values_ok (endGame w h)"
      by (simp add: wf_board_endGame values_ok_endGame)
  next
    show "wf_board g \<and> values_ok g" using assms by simp
  qed
  then show ?thesis ..
qed

lemma reachable_values_ok:
  assumes "reachable g"
  shows "wf_board g \<and> values_ok g"
  using assms
proof (induction rule: reachable.induct)
  case (start rows cols mines ds g0 g)
  from newGame_board[OF start] show ?case
    unfolding values_ok_def revealedAt_def by blast
next
  case (step g fuel req res)
  show ?case
  proof (rule dispatch_invariant[where I = "\<lambda>h. wf_board h \<and> values_ok h", OF step.hyps(2)])
    show "wf_board g" "wf_board g \<and> values_ok g" using step.IH by simp_all
  next
    fix p g' assume "in_bounds g p" "clickCell fuel g p = Some g'"
    with step.IH show "wf_board g' \<and> values_ok g'"
      by (simp add: clickCell_values_ok[of fuel g p g'])
  next
    fix p h assume b: "in_bounds g p"
      and "h = counter_increment g \<or> h = counter_decrement g"
    then have h: "cells h = cells g" "numberOfRowes h = numberOfRowes g"
      "numberOfCols h = numberOfCols g"
      by auto
    from step.IH b h wf_board_toggleFlag[of g h p] values_ok_toggleFlag[of g p h]
    show "wf_board (updateCell toggleFlag p h) \<and> values_ok (updateCell toggleFlag p h)"
      by simp
  qed
qed

lemma reachable_wonGame12: "reachable wonGame12"
proof -
  have "reachable board12" using board12_newGame by (rule reachable.start)
  moreover have "dispatch 1 (Click (0, 1)) board12 = Some (Inr wonGame12)" by code_simp
  ultimately have "reachable (state_after (Inr wonGame12))" by (rule reachable.step)
  then show ?thesis by (simp add: state_after_def)
qed

lemma reachable_lostGame: "reachable lostGame"
proof -
  have "reachable board12" using board12_newGame by (rule reachable.start)
  moreover have "dispatch 1 (Click (0, 0)) board12 = Some (Inr lostGame)" by code_simp
  ultimately have "reachable (state_after (Inr lostGame))" by (rule reachable.step)
  then show ?thesis by (simp add: state_after_def)
qed

subsection \<open>Enough depth for the cascade\<close>

lemma unrevealed_iff: "p \<in> unrevealed g \<longleftrightarrow> in_bounds g p \<and> \<not> revealedAt p g"
  by (simp add: unrevealed_def)

lemma finite_unrevealed [simp]: "finite (unrevealed g)"
  by (rule finite_subset[of _ "{p. in_bounds g p}"]) (auto simp: unrevealed_iff)

lemma card_unrevealed_le: "card (unrevealed g) \<le> numberOfRowes g * numberOfCols g"
proof -
  have "card (unrevealed g) \<le> card {p. in_bounds g p}"
    by (rule card_mono) (auto simp: unrevealed_iff)
  then show ?thesis by (simp add: card_in_bounds)
qed

lemma frame_revealed: "frame g g' \<Longrightarrow> in_bounds g q \<Longrightarrow> revealedAt q g \<Longrightarrow> revealedAt q g'"
  by (simp add: frame_def revealedAt_def del: split_paired_All)

lemma frame_unrevealed: "frame g g' \<Longrightarrow> unrevealed g' \<subseteq> unrevealed g"
  using frame_revealed[of g g'] frame_in_bounds[of g g']
  by (auto simp: unrevealed_iff)

lemma frame_card_unrevealed: "frame g g' \<Longrightarrow> card (unrevealed g') \<le> card (unrevealed g)"
  by (rule card_mono[OF finite_unrevealed frame_unrevealed])

lemma revealedAt_processCell:
  assumes "wf_board g" "in_bounds g p"
  shows "revealedAt q (processCell g p) \<longleftrightarrow> q = p \<or> revealedAt q g"
  by (simp add: revealedAt_def cellAt_processCell[OF assms])

text \<open>The state in which \<open>#setCellValue\<close> starts its second pair of loops.\<close>

lemma hit_frame:
  assumes "wf_board g" "in_bounds g p"
  defines "g1 \<equiv> (if isMine (cellAt g p) then endGame False g else g)"
  shows "wf_board g1" "in_bounds g1 p" "frame g g1" "frame g (processCell g1 p)"
    "revealedAt p (processCell g1 p)" "processed g1 = processed g"
    "revealedCells g1 = revealedCells g"
proof -
  show w1: "wf_board g1" using assms(1) by (simp add: g1_def wf_board_endGame)
  show b1: "in_bounds g1 p" using assms(2) by (simp add: g1_def)
  show f1: "frame g g1" using assms(1) by (simp add: g1_def frame_endGame frame_refl)
  from frame_processCell[OF w1 b1] f1 show "frame g (processCell g1 p)"
    by (blast intro: frame_trans)
  show "revealedAt p (processCell g1 p)" by (simp add: revealedAt_processCell[OF w1 b1])
  show "processed g1 = processed g" "revealedCells g1 = revealedCells g"
    by (simp_all add: g1_def)
qed

lemma clickCell_Suc:
  assumes "\<not> isGameFinished g" "\<not> isFlagged (cellAt g p)"
  defines "g1 \<equiv> (if isMine (cellAt g p) then endGame False g else g)"
  shows "clickCell (Suc n) g p =
     (case (if cell_value (cellAt (processCell g1 p) p) = 0
            then revealAdjacent (clickCell n) (neighbourhood g1 (cellAt g1 p)) (processCell g1 p)
            else Some (processCell g1 p)) of
        None \<Rightarrow> None
      | Some g' \<Rightarrow> Some (if revealedCells g' = cellsToReveal g' \<and> \<not> isGameFinished g'
                          then endGame True g' else g'))"
  using assms(1,2) by (simp add: g1_def setCellValue_unfold)

lemma revealAdjacent_total:
  assumes total: "\<And>h q. wf_board h \<Longrightarrow> in_bounds h q \<Longrightarrow> \<not> revealedAt q h \<Longrightarrow>
      card (unrevealed h) \<le> n \<Longrightarrow> \<exists>h'. click h q = Some h'"
    and fr: "\<And>h q h'. click h q = Some h' \<Longrightarrow> wf_board h \<Longrightarrow> in_bounds h q \<Longrightarrow> frame h h'"
    and "wf_board g" "\<forall>q \<in> set qs. in_bounds g q" "card (unrevealed g) \<le> n"
  shows "\<exists>g'. revealAdjacent click qs g = Some g'"
  using assms(3-5)
proof (induction qs arbitrary: g)
  case Nil
  then show ?case by simp
next
  case (Cons q qs)
  show ?case
  proof (cases "isReveal (cellAt g q)")
    case True
    with Cons show ?thesis by simp
  next
    case False
    with Cons.prems total[of g q] obtain h where h: "click g q = Some h"
      by (auto simp: revealedAt_def)
    from fr[OF h] Cons.prems have f: "frame g h" by simp
    have "\<exists>g'. revealAdjacent click qs h = Some g'"
    proof (rule Cons.IH)
      show "wf_board h" using f by (rule frame_wf)
      show "\<forall>q \<in> set qs. in_bounds h q"
        using Cons.prems(2) by (simp add: frame_in_bounds[OF f])
      show "card (unrevealed h) \<le> n"
        using frame_card_unrevealed[OF f] Cons.prems(3) by simp
    qed
    with False h show ?thesis by simp
  qed
qed

lemma clickCell_total_unrevealed:
  assumes "wf_board g" "in_bounds g p" "\<not> revealedAt p g" "card (unrevealed g) \<le> n"
  shows "\<exists>g'. clickCell n g p = Some g'"
  using assms
proof (induction n arbitrary: g p)
  case 0
  from "0.prems"(2,3) have "p \<in> unrevealed g" by (simp add: unrevealed_iff)
  moreover from 0 have "unrevealed g = {}" by simp
  ultimately show ?case by blast
next
  case (Suc n)
  show ?case
  proof (cases "isGameFinished g \<or> isFlagged (cellAt g p)")
    case True
    then show ?thesis by auto
  next
    case False
    define g1 where "g1 = (if isMine (cellAt g p) then endGame False g else g)"
    define g3 where "g3 = processCell g1 p"
    note h = hit_frame[OF Suc.prems(1,2), folded g1_def, folded g3_def]
    have "unrevealed g3 \<subseteq> unrevealed g - {p}"
      using frame_unrevealed[OF h(4)] h(5) by (auto simp: unrevealed_iff)
    moreover have "p \<in> unrevealed g" using Suc.prems by (simp add: unrevealed_iff)
    ultimately have "unrevealed g3 \<subset> unrevealed g" by blast
    then have "card (unrevealed g3) < card (unrevealed g)"
      by (rule psubset_card_mono[OF finite_unrevealed])
    with Suc.prems(4) have c3: "card (unrevealed g3) \<le> n" by simp
    have w3: "wf_board g3" using h(4) by (rule frame_wf)
    have "\<exists>g4. revealAdjacent (clickCell n) (neighbourhood g1 (cellAt g1 p)) g3 = Some g4"
    proof (rule revealAdjacent_total[where n = n, OF _ _ w3 _ c3])
      show "\<forall>q \<in> set (neighbourhood g1 (cellAt g1 p)). in_bounds g3 q"
        by (simp add: set_neighbourhood g3_def)
    qed (use Suc.IH clickCell_frame in blast)+
    then obtain g4 where
      "revealAdjacent (clickCell n) (neighbourhood g1 (cellAt g1 p)) g3 = Some g4" ..
    moreover from False have "\<not> isGameFinished g" "\<not> isFlagged (cellAt g p)" by simp_all
    note clickCell_Suc[OF this, of n, folded g1_def, folded g3_def]
    ultimately show ?thesis by (simp split: if_splits)
  qed
qed

lemma clickCell_total:
  assumes "wf_board g" "in_bounds g p" "card (unrevealed g) \<le> n"
  shows "\<exists>g'. clickCell (Suc n) g p = Some g'"
proof (cases "isGameFinished g \<or> isFlagged (cellAt g p)")
  case True
  then show ?thesis by auto
next
  case False
  define g1 where "g1 = (if isMine (cellAt g p) then endGame False g else g)"
  define g3 where "g3 = processCell g1 p"
  note h = hit_frame[OF assms(1,2), folded g1_def, folded g3_def]
  have c3: "card (unrevealed g3) \<le> n"
    using frame_card_unrevealed[OF h(4)] assms(3) by simp
  have w3: "wf_board g3" using h(4) by (rule frame_wf)
  have "\<exists>g4. revealAdjacent (clickCell n) (neighbourhood g1 (cellAt g1 p)) g3 = Some g4"
  proof (rule revealAdjacent_total[where n = n, OF _ _ w3 _ c3])
    show "\<forall>q \<in> set (neighbourhood g1 (cellAt g1 p)). in_bounds g3 q"
      by (simp add: set_neighbourhood g3_def)
  qed (use clickCell_total_unrevealed clickCell_frame in blast)+
  then obtain g4 where
    "revealAdjacent (clickCell n) (neighbourhood g1 (cellAt g1 p)) g3 = Some g4" ..
  moreover from False have "\<not> isGameFinished g" "\<not> isFlagged (cellAt g p)" by simp_all
  note clickCell_Suc[OF this, of n, folded g1_def, folded g3_def]
  ultimately show ?thesis by (simp split: if_splits)
qed

subsection \<open>More depth changes nothing\<close>

lemma revealAdjacent_mono:
  assumes "\<And>h q h'. click h q = Some h' \<Longrightarrow> click' h q = Some h'"
    and "revealAdjacent click qs g = Some g'"
  shows "revealAdjacent click' qs g = Some g'"
  using assms(2)
proof (induction qs arbitrary: g)
  case Nil
  then show ?case by simp
next
  case (Cons q qs)
  show ?case
  proof (cases "isReveal (cellAt g q)")
    case True
    with Cons show ?thesis by simp
  next
    case False
    with Cons.prems obtain h where h: "click g q = Some h"
      and r: "revealAdjacent click qs h = Some g'"
      by (auto split: option.splits)
    from assms(1)[OF h] Cons.IH[OF r] False show ?thesis by simp
  qed
qed

lemma clickCell_fuel_Suc:
  assumes "clickCell n g p = Some g'"
  shows "clickCell (Suc n) g p = Some g'"
  using assms
proof (induction n arbitrary: g p g')
  case 0
  then show ?case by simp
next
  case (Suc n)
  show ?case
  proof (cases "isGameFinished g \<or> isFlagged (cellAt g p)")
    case True
    with Suc.prems show ?thesis by simp
  next
    case False
    then have nf: "\<not> isGameFinished g" "\<not> isFlagged (cellAt g p)" by simp_all
    define g1 where "g1 = (if isMine (cellAt g p) then endGame False g else g)"
    define g3 where "g3 = processCell g1 p"
    note a = clickCell_Suc[OF nf, of n, folded g1_def, folded g3_def]
    note b = clickCell_Suc[OF nf, of "Suc n", folded g1_def, folded g3_def]
    show ?thesis
    proof (cases "cell_value (cellAt g3 p) = 0")
      case True
      with Suc.prems a obtain g4 where
        r: "revealAdjacent (clickCell n) (neighbourhood g1 (cellAt g1 p)) g3 = Some g4"
        and g': "g' = (if revealedCells g4 = cellsToReveal g4 \<and> \<not> isGameFinished g4
                     then endGame True g4 else g4)"
        by (auto split: option.splits)
      have "revealAdjacent (clickCell (Suc n)) (neighbourhood g1 (cellAt g1 p)) g3 = Some g4"
        using Suc.IH r by (rule revealAdjacent_mono)
      with True g' show ?thesis unfolding b by simp
    next
      case False
      with Suc.prems a show ?thesis unfolding b by simp
    qed
  qed
qed

lemma clickCell_fuel_mono:
  assumes "clickCell n g p = Some g'"
  shows "clickCell (n + k) g p = Some g'"
  using assms by (induction k) (simp_all add: clickCell_fuel_Suc del: clickCell.simps)

subsection \<open>The cells a click processes\<close>

lemma traced_trans:
  assumes "traced a b ps1" "traced b c ps2" "frame a b" "frame b c"
    and "\<forall>r \<in> set ps2. \<not> revealedAt r b"
  shows "traced a c (ps2 @ ps1)"
proof -
  have ib: "in_bounds b r = in_bounds a r" for r using assms(3) by (rule frame_in_bounds)
  have "set ps1 \<inter> set ps2 = {}"
    using assms(1,5) by (auto simp: traced_def)
  moreover have "revealedAt r c" if "r \<in> set ps1" for r
  proof -
    from that assms(1) have "in_bounds a r" "revealedAt r b" by (simp_all add: traced_def)
    with frame_revealed[OF assms(4), of r] show ?thesis by (simp add: ib)
  qed
  ultimately show ?thesis
    using assms(1,2) by (auto simp: traced_def ib)
qed

lemma revealAdjacent_traced:
  assumes spec: "\<And>h q h'. click h q = Some h' \<Longrightarrow> wf_board h \<Longrightarrow> in_bounds h q \<Longrightarrow>
      frame h h' \<and> (\<exists>ps. traced h h' ps \<and> (\<forall>r \<in> set ps. r = q \<or> \<not> revealedAt r h))"
    and "revealAdjacent click qs g = Some g'" "wf_board g" "\<forall>q \<in> set qs. in_bounds g q"
  shows "frame g g' \<and> (\<exists>ps. traced g g' ps \<and> (\<forall>r \<in> set ps. \<not> revealedAt r g))"
  using assms(2-4)
proof (induction qs arbitrary: g)
  case Nil
  then show ?case by (auto simp: frame_refl traced_def)
next
  case (Cons q qs)
  show ?case
  proof (cases "isReveal (cellAt g q)")
    case True
    with Cons.prems have "revealAdjacent click qs g = Some g'" by simp
    from Cons.IH[OF this] Cons.prems show ?thesis by simp
  next
    case False
    with Cons.prems obtain h where h: "click g q = Some h"
      and r: "revealAdjacent click qs h = Some g'"
      by (auto split: option.splits)
    from spec[OF h] Cons.prems obtain ps1 where f1: "frame g h" and t1: "traced g h ps1"
      and n1: "\<forall>r \<in> set ps1. r = q \<or> \<not> revealedAt r g"
      by auto
    have ib: "in_bounds h r = in_bounds g r" for r using f1 by (rule frame_in_bounds)
    from Cons.IH[OF r frame_wf[OF f1]] Cons.prems(3)
    obtain ps2 where f2: "frame h g'" and t2: "traced h g' ps2"
      and n2: "\<forall>r \<in> set ps2. \<not> revealedAt r h"
      by (auto simp: ib)
    have "traced g g' (ps2 @ ps1)" using t1 t2 f1 f2 n2 by (rule traced_trans)
    moreover have "\<forall>r \<in> set (ps2 @ ps1). \<not> revealedAt r g"
    proof
      fix r assume "r \<in> set (ps2 @ ps1)"
      then consider "r \<in> set ps1" | "r \<in> set ps2" by auto
      then show "\<not> revealedAt r g"
      proof cases
        case 1
        with n1 False show ?thesis by (auto simp: revealedAt_def)
      next
        case 2
        with t2 n2 have "in_bounds g r" "\<not> revealedAt r h" by (simp_all add: traced_def ib)
        with frame_revealed[OF f1, of r] show ?thesis by blast
      qed
    qed
    moreover have "frame g g'" using f1 f2 by (rule frame_trans)
    ultimately show ?thesis by blast
  qed
qed

lemma clickCell_traced:
  assumes "clickCell n g p = Some g'" "wf_board g" "in_bounds g p"
  shows "\<exists>ps. traced g g' ps \<and> (\<forall>r \<in> set ps. r = p \<or> \<not> revealedAt r g)"
  using assms
proof (induction n arbitrary: g p g')
  case 0
  then show ?case by simp
next
  case (Suc n)
  show ?case
  proof (cases "isGameFinished g \<or> isFlagged (cellAt g p)")
    case True
    with Suc.prems have "traced g g' []" by (simp add: traced_def)
    then show ?thesis by auto
  next
    case False
    then have nf: "\<not> isGameFinished g" "\<not> isFlagged (cellAt g p)" by simp_all
    define g1 where "g1 = (if isMine (cellAt g p) then endGame False g else g)"
    define g3 where "g3 = processCell g1 p"
    note a = clickCell_Suc[OF nf, of n, folded g1_def, folded g3_def]
    note h = hit_frame[OF Suc.prems(2,3), folded g1_def, folded g3_def]
    have t3: "traced g g3 [p]"
      using h(5,6,7) Suc.prems(3) by (simp add: traced_def g3_def)
    have "\<exists>g4 ps. traced g g4 ps \<and> (\<forall>r \<in> set ps. r = p \<or> \<not> revealedAt r g) \<and>
        g' = (if revealedCells g4 = cellsToReveal g4 \<and> \<not> isGameFinished g4
              then endGame True g4 else g4)"
    proof (cases "cell_value (cellAt g3 p) = 0")
      case True
      with Suc.prems(1) a obtain g4 where
        r: "revealAdjacent (clickCell n) (neighbourhood g1 (cellAt g1 p)) g3 = Some g4"
        and g': "g' = (if revealedCells g4 = cellsToReveal g4 \<and> \<not> isGameFinished g4
                     then endGame True g4 else g4)"
        by (auto split: option.splits)
      have w3: "wf_board g3" using h(4) by (rule frame_wf)
      have b3: "\<forall>q \<in> set (neighbourhood g1 (cellAt g1 p)). in_bounds g3 q"
        by (simp add: set_neighbourhood g3_def)
      have "frame g3 g4 \<and> (\<exists>ps. traced g3 g4 ps \<and> (\<forall>r \<in> set ps. \<not> revealedAt r g3))"
      proof (rule revealAdjacent_traced[OF _ r w3 b3])
        fix h q h' assume "clickCell n h q = Some h'" "wf_board h" "in_bounds h q"
        with Suc.IH[of h q h'] clickCell_frame[of n h q h']
        show "frame h h' \<and> (\<exists>ps. traced h h' ps \<and> (\<forall>r \<in> set ps. r = q \<or> \<not> revealedAt r h))"
          by simp
      qed
      then obtain ps2 where f4: "frame g3 g4" and t4: "traced g3 g4 ps2"
        and n4: "\<forall>r \<in> set ps2. \<not> revealedAt r g3"
        by blast
      have "traced g g4 (ps2 @ [p])" using t3 t4 h(4) f4 n4 by (rule traced_trans)
      moreover have "\<forall>r \<in> set (ps2 @ [p]). r = p \<or> \<not> revealedAt r g"
      proof
        fix r assume "r \<in> set (ps2 @ [p])"
        then consider "r = p" | "r \<in> set ps2" by auto
        then show "r = p \<or> \<not> revealedAt r g"
        proof cases
          case 1
          then show ?thesis ..
        next
          case 2
          with t4 n4 have "in_bounds g r" "\<not> revealedAt r g3"
            by (simp_all add: traced_def frame_in_bounds[OF h(4)])
          with frame_revealed[OF h(4), of r] show ?thesis by blast
        qed
      qed
      ultimately have "traced g g4 (ps2 @ [p]) \<and>
        (\<forall>r \<in> set (ps2 @ [p]). r = p \<or> \<not> revealedAt r g) \<and>
        g' = (if revealedCells g4 = cellsToReveal g4 \<and> \<not> isGameFinished g4
              then endGame True g4 else g4)"
        using g' by blast
      then show ?thesis by (intro exI[of _ g4] exI[of _ "ps2 @ [p]"])
    next
      case False
      with Suc.prems(1) a have "g' = (if revealedCells g3 = cellsToReveal g3 \<and> \<not> isGameFinished g3
              then endGame True g3 else g3)"
        by auto
      with t3 have "traced g g3 [p] \<and> (\<forall>r \<in> set [p]. r = p \<or> \<not> revealedAt r g) \<and>
        g' = (if revealedCells g3 = cellsToReveal g3 \<and> \<not> isGameFinished g3
              then endGame True g3 else g3)"
        by simp
      then show ?thesis by (intro exI[of _ g3] exI[of _ "[p]"])
    qed
    then obtain g4 ps where t: "traced g g4 ps" and n: "\<forall>r \<in> set ps. r = p \<or> \<not> revealedAt r g"
      and g': "g' = (if revealedCells g4 = cellsToReveal g4 \<and> \<not> isGameFinished g4
              then endGame True g4 else g4)"
      by blast
    from t g' have "traced g g' ps"
      by (simp add: traced_def revealedAt_def)
    with n show ?thesis by blast
  qed
qed

lemma board33_newGame: "newGame 3 3 1 [(2, 2)] freshGame = Some (Inr board33)"
  by code_simp

subsection \<open>Counters that agree with the grid\<close>

lemma safePlaces_iff: "p \<in> safePlaces g \<longleftrightarrow> in_bounds g p \<and> \<not> mineAt p g"
  by (simp add: safePlaces_def)

lemma revealedPlaces_iff: "p \<in> revealedPlaces g \<longleftrightarrow> in_bounds g p \<and> revealedAt p g"
  by (simp add: revealedPlaces_def)

lemma finite_safePlaces [simp]: "finite (safePlaces g)"
  by (rule finite_subset[of _ "{p. in_bounds g p}"]) (auto simp: safePlaces_iff)

lemma finite_revealedPlaces [simp]: "finite (revealedPlaces g)"
  by (rule finite_subset[of _ "{p. in_bounds g p}"]) (auto simp: revealedPlaces_iff)

lemma frame_mineAt: "frame g g' \<Longrightarrow> in_bounds g q \<Longrightarrow> mineAt q g' = mineAt q g"
  by (simp add: frame_def mineAt_def del: split_paired_All)

lemma frame_flaggedAt: "frame g g' \<Longrightarrow> in_bounds g q \<Longrightarrow> flaggedAt q g' = flaggedAt q g"
  by (simp add: frame_def flaggedAt_def del: split_paired_All)

lemma frame_finished: "frame g g' \<Longrightarrow> isGameFinished g \<Longrightarrow> isGameFinished g'"
  by (simp add: frame_def)

lemma frame_cellsToReveal: "frame g g' \<Longrightarrow> cellsToReveal g' = cellsToReveal g"
  by (simp add: frame_def)

lemma safePlaces_frame: "frame g g' \<Longrightarrow> safePlaces g' = safePlaces g"
  using frame_mineAt[of g g'] frame_in_bounds[of g g']
  by (auto simp: safePlaces_iff)

lemma minesCount_frame:
  assumes "frame g g'" "wf_board g" "in_bounds g q"
  shows "minesCount g' q = minesCount g q"
proof -
  have "{r. in_bounds g' r \<and> near q r \<and> mineAt r g'} = {r. in_bounds g r \<and> near q r \<and> mineAt r g}"
    using frame_mineAt[OF assms(1)] frame_in_bounds[OF assms(1)] by auto
  moreover have "in_bounds g' q" using assms(1,3) by (simp add: frame_in_bounds)
  ultimately show ?thesis
    using minesCount_card[OF frame_wf[OF assms(1)]] minesCount_card[OF assms(2,3)] by simp
qed

lemma minesCount_zero:
  assumes "wf_board g" "in_bounds g q" "minesCount g q = 0" "in_bounds g r" "near q r"
  shows "\<not> mineAt r g"
proof -
  have "finite {r. in_bounds g r \<and> near q r \<and> mineAt r g}"
    by (rule finite_subset[of _ "{p. in_bounds g p}"]) auto
  with assms(3) have "{r. in_bounds g r \<and> near q r \<and> mineAt r g} = {}"
    by (simp add: minesCount_card[OF assms(1,2)])
  with assms(4,5) show ?thesis by blast
qed

lemma revealedPlaces_processCell:
  assumes "wf_board g" "in_bounds g q"
  shows "revealedPlaces (processCell g q) = insert q (revealedPlaces g)"
proof (rule set_eqI)
  fix r
  show "r \<in> revealedPlaces (processCell g q) \<longleftrightarrow> r \<in> insert q (revealedPlaces g)"
    using assms(2) by (simp add: revealedPlaces_iff revealedAt_processCell[OF assms]) blast
qed

lemma counted_processCell:
  assumes "counted g" "\<not> isGameFinished g" "in_bounds g q" "\<not> revealedAt q g" "\<not> mineAt q g"
  shows "counted (processCell g q)"
proof -
  from assms(1) have w: "wf_board g" by (simp add: counted_def)
  note f = frame_processCell[OF w assms(3)]
  have s: "safePlaces (processCell g q) = safePlaces g" using f by (rule safePlaces_frame)
  have r: "revealedPlaces (processCell g q) = insert q (revealedPlaces g)"
    using w assms(3) by (rule revealedPlaces_processCell)
  have "q \<notin> revealedPlaces g" using assms(4) by (simp add: revealedPlaces_iff)
  then have c: "card (insert q (revealedPlaces g)) = Suc (card (revealedPlaces g))"
    by simp
  have "q \<in> safePlaces g" using assms(3,5) by (simp add: safePlaces_iff)
  with assms(1,2) show ?thesis
    by (simp add: counted_def s r c wf_board_processCell)
qed

lemma counted_win_check:
  assumes "counted g"
  shows "counted (if revealedCells g = cellsToReveal g \<and> \<not> isGameFinished g
                  then endGame True g else g)"
proof (cases "revealedCells g = cellsToReveal g \<and> \<not> isGameFinished g")
  case True
  with assms have "card (revealedPlaces g) = card (safePlaces g)"
    "revealedPlaces g \<subseteq> safePlaces g"
    by (simp_all add: counted_def)
  then have "revealedPlaces g = safePlaces g"
    using card_subset_eq[OF finite_safePlaces] by blast
  moreover have "safePlaces (endGame True g) = safePlaces g"
    "revealedPlaces (endGame True g) = revealedPlaces g"
    by (simp_all add: safePlaces_def revealedPlaces_def positions_def mineAt_def revealedAt_def)
  ultimately show ?thesis
    using True assms by (simp add: counted_def wf_board_endGame)
next
  case False
  then have "(if revealedCells g = cellsToReveal g \<and> \<not> isGameFinished g
      then endGame True g else g) = g"
    by (rule if_not_P)
  with assms show ?thesis by simp
qed

subsection \<open>What a cascade leaves revealed\<close>

lemma closed_since_refl: "closed_since g g"
  unfolding closed_since_def by blast

lemma flags_kept_refl: "flags_kept g g"
  by (simp add: flags_kept_def)

lemma flags_kept_trans:
  assumes "flags_kept a b" "flags_kept b c" "frame a b"
  shows "flags_kept a c"
  unfolding flags_kept_def
proof (intro allI impI)
  fix r assume r: "in_bounds a r \<and> flaggedAt r a"
  then have "in_bounds b r \<and> flaggedAt r b"
    using frame_in_bounds[OF assms(3)] frame_flaggedAt[OF assms(3)] by simp
  with assms(1,2) r show "revealedAt r c \<longleftrightarrow> revealedAt r a"
    unfolding flags_kept_def by blast
qed

lemma closed_since_trans:
  assumes "closed_since a b" "closed_since b c" "frame a b" "frame b c" "wf_board a"
  shows "closed_since a c"
proof (cases "isGameFinished c")
  case True
  then show ?thesis by (simp add: closed_since_def)
next
  case False
  with frame_finished[OF assms(4)] have nb: "\<not> isGameFinished b" by blast
  have ib: "in_bounds b r = in_bounds a r" for r using assms(3) by (rule frame_in_bounds)
  show ?thesis
    unfolding closed_since_def
  proof (intro disjI2 allI impI)
    fix q r
    assume q: "in_bounds a q \<and> revealedAt q c \<and> \<not> revealedAt q a \<and> minesCount a q = 0"
      and r: "in_bounds a r \<and> near q r \<and> \<not> flaggedAt r a"
    show "revealedAt r c"
    proof (cases "revealedAt q b")
      case True
      with assms(1) nb q r have "revealedAt r b" unfolding closed_since_def by blast
      with frame_revealed[OF assms(4), of r] r show ?thesis by (simp add: ib)
    next
      case False
      have "minesCount b q = 0" using minesCount_frame[OF assms(3,5)] q by simp
      moreover have "\<not> flaggedAt r b" using frame_flaggedAt[OF assms(3)] r by simp
      ultimately show ?thesis
        using assms(2) \<open>\<not> isGameFinished c\<close> False q r unfolding closed_since_def
        by (simp add: ib del: split_paired_All) blast
    qed
  qed
qed

text \<open>What a call of \<open>#clickCell\<close> from the cascade achieves.\<close>

lemma revealAdjacent_closed:
  assumes spec: "\<And>h r h'. click h r = Some h' \<Longrightarrow> counted h \<Longrightarrow> in_bounds h r \<Longrightarrow>
      \<not> revealedAt r h \<Longrightarrow> \<not> mineAt r h \<Longrightarrow>
      counted h' \<and> frame h h' \<and> closed_since h h' \<and> flags_kept h h' \<and>
      (isGameFinished h' \<or> flaggedAt r h \<or> revealedAt r h')"
    and "revealAdjacent click qs g = Some g'" "counted g"
    and "\<forall>r \<in> set qs. in_bounds g r \<and> \<not> mineAt r g"
  shows "counted g' \<and> frame g g' \<and> closed_since g g' \<and> flags_kept g g' \<and>
      (isGameFinished g' \<or> (\<forall>r \<in> set qs. flaggedAt r g \<or> revealedAt r g'))"
  using assms(2-4)
proof (induction qs arbitrary: g)
  case Nil
  then show ?case
    by (simp add: frame_refl closed_since_refl flags_kept_refl counted_def)
next
  case (Cons q qs)
  from Cons.prems(2) have wg: "wf_board g" by (simp add: counted_def)
  show ?case
  proof (cases "isReveal (cellAt g q)")
    case True
    with Cons.prems have "revealAdjacent click qs g = Some g'" by simp
    from Cons.IH[OF this Cons.prems(2)] Cons.prems(3)
    have ih: "counted g'" "frame g g'" "closed_since g g'" "flags_kept g g'"
      "isGameFinished g' \<or> (\<forall>r \<in> set qs. flaggedAt r g \<or> revealedAt r g')"
      by simp_all
    from True Cons.prems(3) frame_revealed[OF ih(2), of q] have "revealedAt q g'"
      by (simp add: revealedAt_def)
    with ih show ?thesis by auto
  next
    case False
    with Cons.prems obtain h where h: "click g q = Some h"
      and r: "revealAdjacent click qs h = Some g'"
      by (auto split: option.splits)
    from spec[OF h Cons.prems(2)] Cons.prems(3) False
    have s: "counted h" "frame g h" "closed_since g h" "flags_kept g h"
      "isGameFinished h \<or> flaggedAt q g \<or> revealedAt q h"
      by (simp_all add: revealedAt_def)
    have ib: "in_bounds h x = in_bounds g x" for x using s(2) by (rule frame_in_bounds)
    have "\<forall>r \<in> set qs. in_bounds h r \<and> \<not> mineAt r h"
      using Cons.prems(3) frame_mineAt[OF s(2)] by (simp add: ib)
    from Cons.IH[OF r s(1) this]
    have ih: "counted g'" "frame h g'" "closed_since h g'" "flags_kept h g'"
      "isGameFinished g' \<or> (\<forall>r \<in> set qs. flaggedAt r h \<or> revealedAt r g')"
      by simp_all
    have f: "frame g g'" using s(2) ih(2) by (rule frame_trans)
    have c: "closed_since g g'" using s(3) ih(3) s(2) ih(2) wg by (rule closed_since_trans)
    have k: "flags_kept g g'" using s(4) ih(4) s(2) by (rule flags_kept_trans)
    have "isGameFinished g' \<or> (\<forall>r \<in> set (q # qs). flaggedAt r g \<or> revealedAt r g')"
    proof (cases "isGameFinished g'")
      case True
      then show ?thesis ..
    next
      case False
      with frame_finished[OF ih(2)] have "\<not> isGameFinished h" by blast
      with s(5) have "flaggedAt q g \<or> revealedAt q h" by simp
      with frame_revealed[OF ih(2), of q] Cons.prems(3)
      have 1: "flaggedAt q g \<or> revealedAt q g'" by (auto simp: ib)
      from False ih(5) have "\<forall>r \<in> set qs. flaggedAt r h \<or> revealedAt r g'" by simp
      with Cons.prems(3) frame_flaggedAt[OF s(2)]
      have "\<forall>r \<in> set qs. flaggedAt r g \<or> revealedAt r g'" by auto
      with 1 show ?thesis by simp
    qed
    with ih(1) f c k show ?thesis by blast
  qed
qed

lemma closed_since_hit:
  assumes "wf_board h" "in_bounds h q" "frame (processCell h q) g4"
    and "closed_since (processCell h q) g4"
    and cover: "minesCount h q = 0 \<Longrightarrow>
      isGameFinished g4 \<or> (\<forall>r. in_bounds h r \<and> near q r \<longrightarrow> flaggedAt r h \<or> revealedAt r g4)"
  shows "closed_since h g4"
proof (cases "isGameFinished g4")
  case True
  then show ?thesis by (simp add: closed_since_def)
next
  case False
  note f3 = frame_processCell[OF assms(1,2)]
  show ?thesis
    unfolding closed_since_def
  proof (intro disjI2 allI impI)
    fix x y
    assume x: "in_bounds h x \<and> revealedAt x g4 \<and> \<not> revealedAt x h \<and> minesCount h x = 0"
      and y: "in_bounds h y \<and> near x y \<and> \<not> flaggedAt y h"
    show "revealedAt y g4"
    proof (cases "x = q")
      case True
      with x have "minesCount h q = 0" by simp
      from cover[OF this] False
      have "\<forall>r. in_bounds h r \<and> near q r \<longrightarrow> flaggedAt r h \<or> revealedAt r g4" by simp
      with y True show ?thesis by blast
    next
      case neq: False
      with x have "\<not> revealedAt x (processCell h q)"
        by (simp add: revealedAt_processCell[OF assms(1,2)])
      moreover have "minesCount (processCell h q) x = 0"
        using minesCount_frame[OF f3 assms(1)] x by simp
      moreover have "\<not> flaggedAt y (processCell h q)"
        using frame_flaggedAt[OF f3] y by simp
      ultimately show ?thesis
        using assms(4) False x y unfolding closed_since_def
        by (simp del: split_paired_All) blast
    qed
  qed
qed

lemma win_check_post:
  assumes "counted g4" "frame h g4" "closed_since h g4" "flags_kept h g4" "revealedAt q g4"
  defines "g' \<equiv> (if revealedCells g4 = cellsToReveal g4 \<and> \<not> isGameFinished g4
                  then endGame True g4 else g4)"
  shows "counted g' \<and> frame h g' \<and> closed_since h g' \<and> flags_kept h g' \<and>
      (isGameFinished g' \<or> flaggedAt q h \<or> revealedAt q g')"
proof (cases "revealedCells g4 = cellsToReveal g4 \<and> \<not> isGameFinished g4")
  case True
  then have g': "g' = endGame True g4" by (simp add: g'_def)
  have "counted g'" using counted_win_check[OF assms(1)] by (simp add: g'_def)
  moreover have "frame h g'"
    using assms(2) frame_endGame[OF frame_wf[OF assms(2)], of True]
    unfolding g' by (rule frame_trans)
  moreover have "closed_since h g'" by (simp add: g' closed_since_def)
  moreover have "flags_kept h g'"
    using assms(4) by (simp add: g' flags_kept_def revealedAt_def)
  ultimately show ?thesis by (simp add: g')
next
  case False
  then have "g' = g4" unfolding g'_def by (rule if_not_P)
  with assms(1-5) show ?thesis by simp
qed

lemma clickCell_closed:
  assumes "clickCell n h q = Some h'" "counted h" "in_bounds h q"
    "\<not> revealedAt q h" "\<not> mineAt q h"
  shows "counted h' \<and> frame h h' \<and> closed_since h h' \<and> flags_kept h h' \<and>
      (isGameFinished h' \<or> flaggedAt q h \<or> revealedAt q h')"
  using assms
proof (induction n arbitrary: h q h')
  case 0
  then show ?case by simp
next
  case (Suc n)
  from Suc.prems(2) have wh: "wf_board h" by (simp add: counted_def)
  show ?case
  proof (cases "isGameFinished h \<or> isFlagged (cellAt h q)")
    case True
    with Suc.prems(1) have "h' = h" by simp
    with True Suc.prems(2) wh show ?thesis
      by (auto simp: frame_refl closed_since_refl flags_kept_refl flaggedAt_def)
  next
    case False
    then have nf: "\<not> isGameFinished h" "\<not> isFlagged (cellAt h q)" by simp_all
    from Suc.prems(5) have nm: "\<not> isMine (cellAt h q)" by (simp add: mineAt_def)
    define g3 where "g3 = processCell h q"
    note a = clickCell_Suc[OF nf, of n, unfolded if_not_P[OF nm], folded g3_def]
    have c3: "counted g3"
      unfolding g3_def using Suc.prems(2) nf(1) Suc.prems(3,4,5) by (rule counted_processCell)
    have f3: "frame h g3" unfolding g3_def using wh Suc.prems(3) by (rule frame_processCell)
    have r3: "revealedAt q g3"
      by (simp add: g3_def revealedAt_processCell[OF wh Suc.prems(3)])
    have v3: "cell_value (cellAt g3 q) = minesCount h q"
      by (simp add: g3_def cellAt_processCell[OF wh Suc.prems(3)])
    have k3: "flags_kept h g3"
      unfolding flags_kept_def
    proof (intro allI impI)
      fix r assume "in_bounds h r \<and> flaggedAt r h"
      with nf(2) have "r \<noteq> q" by (auto simp: flaggedAt_def)
      then show "revealedAt r g3 \<longleftrightarrow> revealedAt r h"
        by (simp add: g3_def revealedAt_processCell[OF wh Suc.prems(3)])
    qed
    have "\<exists>g4. counted g4 \<and> frame h g4 \<and> closed_since h g4 \<and> flags_kept h g4 \<and>
        revealedAt q g4 \<and>
        h' = (if revealedCells g4 = cellsToReveal g4 \<and> \<not> isGameFinished g4
              then endGame True g4 else g4)"
    proof (cases "minesCount h q = 0")
      case True
      with Suc.prems(1) a v3 obtain g4 where
        r: "revealAdjacent (clickCell n) (neighbourhood h (cellAt h q)) g3 = Some g4"
        and h': "h' = (if revealedCells g4 = cellsToReveal g4 \<and> \<not> isGameFinished g4
                     then endGame True g4 else g4)"
        by (auto split: option.splits)
      have qs: "\<forall>r \<in> set (neighbourhood h (cellAt h q)). in_bounds g3 r \<and> \<not> mineAt r g3"
      proof
        fix r assume "r \<in> set (neighbourhood h (cellAt h q))"
        then have "in_bounds h r" "near q r"
          by (simp_all add: set_neighbourhood_wf[OF wh Suc.prems(3)])
        with minesCount_zero[OF wh Suc.prems(3) True] frame_mineAt[OF f3]
        show "in_bounds g3 r \<and> \<not> mineAt r g3" by (simp add: g3_def)
      qed
      from revealAdjacent_closed[of "clickCell n", OF Suc.IH r c3 qs]
      have l: "counted g4" "frame g3 g4" "closed_since g3 g4" "flags_kept g3 g4"
        "isGameFinished g4 \<or>
         (\<forall>r \<in> set (neighbourhood h (cellAt h q)). flaggedAt r g3 \<or> revealedAt r g4)"
        by simp_all
      have cover: "isGameFinished g4 \<or>
          (\<forall>r. in_bounds h r \<and> near q r \<longrightarrow> flaggedAt r h \<or> revealedAt r g4)"
        using l(5) frame_flaggedAt[OF f3]
        by (auto simp: set_neighbourhood_wf[OF wh Suc.prems(3)])
      have "closed_since h g4"
        using wh Suc.prems(3) l(2,3)[unfolded g3_def] cover by (rule closed_since_hit)
      moreover have "frame h g4" using f3 l(2) by (rule frame_trans)
      moreover have "flags_kept h g4" using k3 l(4) f3 by (rule flags_kept_trans)
      moreover have "revealedAt q g4"
        using frame_revealed[OF l(2), of q] r3 Suc.prems(3) frame_in_bounds[OF f3] by simp
      ultimately have "counted g4 \<and> frame h g4 \<and> closed_since h g4 \<and> flags_kept h g4 \<and>
        revealedAt q g4 \<and>
        h' = (if revealedCells g4 = cellsToReveal g4 \<and> \<not> isGameFinished g4
              then endGame True g4 else g4)"
        using l(1) h' by blast
      then show ?thesis ..
    next
      case False
      with Suc.prems(1) a v3
      have h': "h' = (if revealedCells g3 = cellsToReveal g3 \<and> \<not> isGameFinished g3
                     then endGame True g3 else g3)"
        by auto
      have "closed_since h g3"
        unfolding g3_def
        by (rule closed_since_hit[OF wh Suc.prems(3)
              frame_refl[OF frame_wf[OF f3], unfolded g3_def] closed_since_refl])
          (simp add: False)
      with c3 f3 k3 r3 h'
      have "counted g3 \<and> frame h g3 \<and> closed_since h g3 \<and> flags_kept h g3 \<and>
        revealedAt q g3 \<and>
        h' = (if revealedCells g3 = cellsToReveal g3 \<and> \<not> isGameFinished g3
              then endGame True g3 else g3)"
        by blast
      then show ?thesis ..
    qed
    then obtain g4 where g4: "counted g4" "frame h g4" "closed_since h g4" "flags_kept h g4"
      "revealedAt q g4"
      and h': "h' = (if revealedCells g4 = cellsToReveal g4 \<and> \<not> isGameFinished g4
              then endGame True g4 else g4)"
      by blast
    from win_check_post[OF g4] show ?thesis unfolding h' .
  qed
qed

subsection \<open>Games whose counters agree with the grid\<close>

lemma consistent_newGame:
  assumes "newGame rows cols mines ds g0 = Some (Inr g)"
  shows "consistent g"
proof -
  note b = newGame_board[OF assms] and f = newGame_fields[OF assms]
  have m: "minePlaces g \<subseteq> {p. in_bounds g p}" by (auto simp: minePlaces_def)
  have s: "safePlaces g = {p. in_bounds g p} - minePlaces g"
    by (auto simp: safePlaces_def minePlaces_def)
  have "card (minePlaces g) \<le> card {p. in_bounds g p}"
    by (rule card_mono[OF finite_in_bounds m])
  then have le: "mines \<le> rows * cols" using b(2) f(1,2) by (simp add: card_in_bounds)
  have "card (safePlaces g) = card {p. in_bounds g p} - card (minePlaces g)"
    unfolding s by (rule card_Diff_subset[OF finite_minePlaces m])
  then have "card (safePlaces g) = rows * cols - mines"
    using b(2) f(1,2) by (simp add: card_in_bounds)
  then have c: "cellsToReveal g = int (card (safePlaces g))"
    using le f(5) by (simp add: of_nat_diff mult.commute)
  have r: "revealedPlaces g = {}"
    using b(3) by (auto simp: revealedPlaces_iff revealedAt_def)
  show ?thesis using c r f(6) by (simp add: consistent_def)
qed

lemma flagged33_request: "handleCellContextMenu board33 (1, 0) = Inr flagged33"
  by code_simp

lemma chain_flagged33: "chain flagged33 (0, 0) (1, 2)"
proof -
  have 0: "chain flagged33 (0, 0) (0, 0)" by (rule chain.first)
  have 1: "chain flagged33 (0, 0) (0, 1)"
    by (rule chain.further[OF 0]) code_simp+
  have 2: "chain flagged33 (0, 0) (0, 2)"
    by (rule chain.further[OF 1]) code_simp+
  show ?thesis
    by (rule chain.further[OF 2]) code_simp+
qed

lemma stale16_session:
  "session 1 6 2 [(0, 4), (0, 5)] 3
     [ContextMenu (0, 0), ContextMenu (0, 2), Click (0, 1), ContextMenu (0, 0),
      ContextMenu (0, 2)] = Some stale16"
  by code_simp

lemma consistent_click:
  assumes "wf_board g" "\<not> isGameFinished g" "consistent g"
    and "in_bounds g p" "\<not> revealedAt p g" "\<not> mineAt p g"
    and "clickCell n g p = Some g'"
  shows "isGameFinished g' \<or> consistent g'"
proof -
  have "counted g" using assms(1-3) by (simp add: counted_def consistent_def)
  from clickCell_closed[OF assms(7) this assms(4-6)] have "counted g'" by simp
  then show ?thesis by (auto simp: counted_def consistent_def)
qed

lemma consistent_flag:
  assumes "wf_board g" "consistent g" "handleCellContextMenu g e = Inr g'"
  shows "consistent g'"
proof (cases "cellRef g (fst e) (snd e)")
  case (Inl err)
  with assms(3) show ?thesis by (simp add: handleCellContextMenu_def)
next
  case (Inr po)
  show ?thesis
  proof (cases po)
    case None
    with Inr assms(3) show ?thesis by (simp add: handleCellContextMenu_def)
  next
    case (Some p)
    with Inr have b: "in_bounds g p" using cellRef_Some[OF assms(1)] by simp
    have keep: "consistent (updateCell toggleFlag p h)"
      if h: "cells h = cells g" "numberOfRowes h = numberOfRowes g"
        "numberOfCols h = numberOfCols g" "cellsToReveal h = cellsToReveal g"
        "revealedCells h = revealedCells g" for h
    proof -
      let ?g' = "updateCell toggleFlag p h"
      note c = cellAt_toggleFlag[OF assms(1) b h(1-3)]
      have i: "in_bounds h q = in_bounds g q" for q by (simp add: in_bounds_def h)
      have "mineAt q ?g' = mineAt q g" "revealedAt q ?g' = revealedAt q g" for q
        by (simp_all add: mineAt_def revealedAt_def c toggleFlag_def)
      then have "safePlaces ?g' = safePlaces g" "revealedPlaces ?g' = revealedPlaces g"
        by (simp_all add: safePlaces_def revealedPlaces_def i)
      with assms(2) h(4,5) show ?thesis by (simp add: consistent_def)
    qed
    from assms(3) Inr Some
    have "g' = g \<or> g' = updateCell toggleFlag p (counter_increment g) \<or>
        g' = updateCell toggleFlag p (counter_decrement g)"
      by (auto simp: handleCellContextMenu_def split: if_splits)
    with assms(2) keep[of "counter_increment g"] keep[of "counter_decrement g"]
    show ?thesis by (auto simp: counter_increment_def counter_decrement_def)
  qed
qed

section \<open>A finished session is frozen\<close>

lemma finished_dispatch:
  assumes "isGameFinished g"
  shows "\<exists>res. dispatch (Suc n) req g = Some res \<and> state_after res = g"
proof (cases req)
  case (Click e)
  then show ?thesis using assms
    by (auto simp: dispatch_def handleCellClick_def state_after_def
        split: sum.splits option.splits)
next
  case (ContextMenu e)
  then show ?thesis using assms
    by (auto simp: dispatch_def handleCellContextMenu_def state_after_def
        split: sum.splits option.splits)
qed

text \<open>
  Claim C8.  Once \<open>isGameFinished\<close> is set (by a win or by a loss), any sequence of
  left and right clicks, whatever their coordinates, ends in the very same state:
  no cell, no counter and no other field changes.
\<close>

theorem finished_session_frozen:
  "isGameFinished g \<Longrightarrow> play (Suc n) reqs g = Some g"
proof (induction reqs)
  case Nil
  show ?case by simp
next
  case (Cons req reqs)
  from finished_dispatch[OF Cons.prems, of n req]
  obtain res where "dispatch (Suc n) req g = Some res" "state_after res = g" by blast
  with Cons show ?case by simp
qed

theorem finished_session_frozen_witness:
  "isGameFinished lostGame \<and>
   play (Suc 1) [Click (0, 1), ContextMenu (0, 1), Click (0, 0), ContextMenu (0, 0),
                 Click (0, 7)] lostGame = Some lostGame"
proof -
  have h: "isGameFinished lostGame" by (simp add: lostGame_def)
  from finished_session_frozen[OF h] h show ?thesis by blast
qed

section \<open>Requests outside the grid\<close>

text \<open>
  Claim C10.  On a well-formed board, a right click whose coordinates are outside
  \<open>[0, rows) \<times> [0, cols)\<close> throws with every field as before, and a left click
  does the same, or (in a finished game, where \<open>#clickCell\<close> returns before it looks
  at the cell) returns with every field as before.
\<close>

theorem out_of_bounds_rejected:
  assumes "wf_board g"
    and "\<not> (0 \<le> fst e \<and> fst e < int (numberOfRowes g) \<and> 0 \<le> snd e \<and> snd e < int (numberOfCols g))"
  shows "handleCellContextMenu g e = Inl (TypeError, g) \<and>
         (handleCellClick fuel g e = Some (Inl (TypeError, g)) \<or>
          isGameFinished g \<and> handleCellClick fuel g e = Some (Inr g))"
  using cellRef_out_of_bounds[OF assms]
  by (auto simp: handleCellContextMenu_def handleCellClick_def)

theorem out_of_bounds_rejected_witness:
  "wf_board board12 \<and>
   handleCellContextMenu board12 (0, 2) = Inl (TypeError, board12) \<and>
   handleCellClick 3 board12 (- 1, 0) = Some (Inl (TypeError, board12))"
proof -
  have w: "wf_board board12" by code_simp
  have a: "\<not> (0 \<le> fst (0::int, 2::int) \<and> fst (0::int, 2::int) < int (numberOfRowes board12) \<and>
     0 \<le> snd (0::int, 2::int) \<and> snd (0::int, 2::int) < int (numberOfCols board12))"
    by (simp add: board12_def)
  have b: "\<not> (0 \<le> fst (- 1::int, 0::int) \<and> fst (- 1::int, 0::int) < int (numberOfRowes board12) \<and>
     0 \<le> snd (- 1::int, 0::int) \<and> snd (- 1::int, 0::int) < int (numberOfCols board12))"
    by simp
  have nf: "\<not> isGameFinished board12" by (simp add: board12_def)
  from out_of_bounds_rejected[OF w a, of 3] out_of_bounds_rejected[OF w b, of 3] w nf
  show ?thesis by simp
qed

section \<open>Flags and the counter\<close>

text \<open>
  Claim C9.  \<open>#newGame\<close> sets the counter to the number of mines.  A right click on a
  cell that is not revealed, in a game that is not finished, leaves every other cell
  alone and: removes the flag of a flagged cell and adds one to the counter; flags an
  unflagged cell and takes one from the counter when the counter is not 0; and changes
  nothing when the cell is unflagged and the counter is 0.  A right click on a
  revealed cell changes nothing.
\<close>

theorem flag_requests:
  "(newGame rows cols mines ds g0 = Some (Inr g1) \<longrightarrow> counter_value g1 = int mines) \<and>
   (wf_board g \<and> in_bounds g p \<and> \<not> isGameFinished g \<and> \<not> revealedAt p g \<longrightarrow>
      (\<exists>g'. handleCellContextMenu g (event_of p) = Inr g' \<and>
         (\<forall>q. q \<noteq> p \<longrightarrow> cellAt g' q = cellAt g q) \<and>
         (if flaggedAt p g
          then \<not> flaggedAt p g' \<and> counter_value g' = counter_value g + 1
          else if counter_value g \<noteq> 0
          then flaggedAt p g' \<and> counter_value g' = counter_value g - 1
          else g' = g))) \<and>
   (wf_board g \<and> in_bounds g p \<and> revealedAt p g \<longrightarrow>
      handleCellContextMenu g (event_of p) = Inr g)"
proof (intro conjI impI)
  assume "newGame rows cols mines ds g0 = Some (Inr g1)"
  then show "counter_value g1 = int mines" by (rule newGame_fields)
next
  assume a: "wf_board g \<and> in_bounds g p \<and> \<not> isGameFinished g \<and> \<not> revealedAt p g"
  then have w: "wf_board g" "in_bounds g p" and nf: "\<not> isGameFinished g"
    and nr: "\<not> isReveal (cellAt g p)"
    by (simp_all add: revealedAt_def)
  note h = handleCellContextMenu_in_bounds[OF w]
  note ti = flag_toggle[OF w nr, of "counter_increment g"]
  note td = flag_toggle[OF w nr, of "counter_decrement g"]
  let ?P = "\<lambda>g'. handleCellContextMenu g (event_of p) = Inr g' \<and>
         (\<forall>q. q \<noteq> p \<longrightarrow> cellAt g' q = cellAt g q) \<and>
         (if flaggedAt p g
          then \<not> flaggedAt p g' \<and> counter_value g' = counter_value g + 1
          else if counter_value g \<noteq> 0
          then flaggedAt p g' \<and> counter_value g' = counter_value g - 1
          else g' = g)"
  consider (unflag) "isFlagged (cellAt g p)"
    | (place) "\<not> isFlagged (cellAt g p)" "counter_value g \<noteq> 0"
    | (none) "\<not> isFlagged (cellAt g p)" "counter_value g = 0"
    by blast
  then show "\<exists>g'. ?P g'"
  proof cases
    case unflag
    have "?P (updateCell toggleFlag p (counter_increment g))"
      using unflag nf nr h ti by (simp add: flaggedAt_def)
    then show ?thesis ..
  next
    case place
    have "?P (updateCell toggleFlag p (counter_decrement g))"
      using place nf nr h td by (simp add: flaggedAt_def)
    then show ?thesis ..
  next
    case none
    have "?P g" using none nf nr h by (simp add: flaggedAt_def)
    then show ?thesis ..
  qed
next
  assume "wf_board g \<and> in_bounds g p \<and> revealedAt p g"
  then show "handleCellContextMenu g (event_of p) = Inr g"
    by (simp add: handleCellContextMenu_in_bounds revealedAt_def)
qed

theorem flag_requests_witness:
  "newGame 1 2 1 [(0, 0)] freshGame = Some (Inr board12) \<and> counter_value board12 = 1 \<and>
   handleCellContextMenu board12 (0, 1) = Inr flagged12 \<and>
   flaggedAt (0, 1) flagged12 \<and> counter_value flagged12 = counter_value board12 - 1 \<and>
   counter_value flagged12 = 0 \<and> \<not> flaggedAt (0, 0) flagged12 \<and>
   handleCellContextMenu flagged12 (0, 0) = Inr flagged12 \<and>
   handleCellContextMenu flagged12 (0, 1) = Inr board12 \<and>
   \<not> flaggedAt (0, 1) board12 \<and> counter_value board12 = counter_value flagged12 + 1 \<and>
   revealedAt (0, 0) lostGame \<and> handleCellContextMenu lostGame (0, 0) = Inr lostGame"
proof -
  have ev: "event_of (0, 1) = (0, 1)" "event_of (0, 0) = (0, 0)"
    by (simp_all add: event_of_def)
  note inst = flag_requests[of 1 2 1 "[(0, 0)]" freshGame board12]
  note init = inst[THEN conjunct1, rule_format]
  note flag = inst[THEN conjunct2, THEN conjunct1, rule_format]
  note shown = inst[THEN conjunct2, THEN conjunct2, rule_format]
  have n: "newGame 1 2 1 [(0, 0)] freshGame = Some (Inr board12)" by (rule board12_newGame)
  have c: "counter_value board12 = 1" using init[OF n] by simp
  have h1: "wf_board board12 \<and> in_bounds board12 (0, 1) \<and> \<not> isGameFinished board12 \<and>
      \<not> revealedAt (0, 1) board12" by code_simp
  have f1: "\<not> flaggedAt (0, 1) board12" "counter_value board12 \<noteq> 0" by code_simp+
  have e1: "handleCellContextMenu board12 (0, 1) = Inr flagged12" by code_simp
  from flag[OF h1] obtain g' where
    "handleCellContextMenu board12 (event_of (0, 1)) = Inr g'"
    "flaggedAt (0, 1) g' \<and> counter_value g' = counter_value board12 - 1"
    using f1 by auto
  with e1 ev have r1:
    "flaggedAt (0, 1) flagged12 \<and> counter_value flagged12 = counter_value board12 - 1"
    by simp
  have h2: "wf_board flagged12 \<and> in_bounds flagged12 (0, 0) \<and> \<not> isGameFinished flagged12 \<and>
      \<not> revealedAt (0, 0) flagged12" by code_simp
  have f2: "\<not> flaggedAt (0, 0) flagged12" "counter_value flagged12 = 0" by code_simp+
  from flag[OF h2] f2 ev have r2: "handleCellContextMenu flagged12 (0, 0) = Inr flagged12"
    by auto
  have h3: "wf_board flagged12 \<and> in_bounds flagged12 (0, 1) \<and> \<not> isGameFinished flagged12 \<and>
      \<not> revealedAt (0, 1) flagged12" by code_simp
  have f3: "flaggedAt (0, 1) flagged12" by code_simp
  have e3: "handleCellContextMenu flagged12 (0, 1) = Inr board12" by code_simp
  from flag[OF h3] obtain g'' where
    "handleCellContextMenu flagged12 (event_of (0, 1)) = Inr g''"
    "\<not> flaggedAt (0, 1) g'' \<and> counter_value g'' = counter_value flagged12 + 1"
    using f3 by auto
  with e3 ev have r3:
    "\<not> flaggedAt (0, 1) board12 \<and> counter_value board12 = counter_value flagged12 + 1"
    by simp
  have h4: "wf_board lostGame \<and> in_bounds lostGame (0, 0) \<and> revealedAt (0, 0) lostGame"
    by code_simp
  from shown[OF h4] ev have r4: "handleCellContextMenu lostGame (0, 0) = Inr lostGame"
    by simp
  from n c e1 r1 f2 r2 e3 r3 h4 r4 show ?thesis by blast
qed

section \<open>Placing the mines\<close>

text \<open>
  Claim C6.  When \<open>#placeMinesInCells\<close> completes on the freshly generated grid,
  the places that hold a mine are exactly \<open>numberOfMines\<close> many (places of the grid
  are distinct by construction), and so is the number of cells with \<open>isMine\<close> in the
  flattened grid: a draw that hits a mine is drawn again and \<open>addMine\<close> runs on
  cells without a mine only.  By \<open>placement_can_complete\<close> there are draws for which
  it completes whenever the mines fit on the grid.
\<close>

theorem placement_exact:
  assumes "placeMinesInCells ds (generateCells g) = Some (Inr g')"
  shows "card (minePlaces g') = numberOfMines g \<and> mineCount g' = numberOfMines g"
proof -
  from assms have "placeMines (numberOfMines g) ds (generateCells g) = Some (Inr g')"
    by (simp add: placeMinesInCells_def)
  from placeMines_places[OF this wf_board_generateCells]
  have "wf_board g'" "card (minePlaces g') = numberOfMines g"
    by (simp_all add: minePlaces_generateCells)
  then show ?thesis by (simp add: mineCount_card)
qed

theorem placement_exact_witness:
  "placeMinesInCells [(0, 2), (0, 2), (0, 0)]
     (generateCells (freshGame\<lparr>numberOfRowes := 1, numberOfCols := 3, numberOfMines := 2\<rparr>))
     = Some (Inr mined13) \<and>
   card (minePlaces mined13) = 2 \<and> mineCount mined13 = 2"
proof -
  have e: "placeMinesInCells [(0, 2), (0, 2), (0, 0)]
     (generateCells (freshGame\<lparr>numberOfRowes := 1, numberOfCols := 3, numberOfMines := 2\<rparr>))
     = Some (Inr mined13)"
    by code_simp
  from placement_exact[OF e] e show ?thesis by simp
qed

section \<open>Adjacency counts\<close>

text \<open>
  Claim C5, as the code has it.  In every state a game can reach, a revealed cell
  that holds no mine stores the number of mines among its neighbours on the grid (the
  cell itself not counted), a number from 0 to 8.
\<close>

theorem revealed_value_is_adjacency:
  assumes "reachable g" "in_bounds g p" "revealedAt p g" "\<not> mineAt p g"
  shows "valueAt p g = adjacentHazards g p \<and> valueAt p g \<le> 8"
proof -
  from reachable_values_ok[OF assms(1)] assms(2-4)
  have "valueAt p g = adjacentHazards g p"
    unfolding values_ok_def by blast
  with adjacentHazards_le[of g p] show ?thesis by simp
qed

theorem revealed_value_is_adjacency_witness:
  "reachable wonGame12 \<and> in_bounds wonGame12 (0, 1) \<and> revealedAt (0, 1) wonGame12 \<and>
   \<not> mineAt (0, 1) wonGame12 \<and>
   valueAt (0, 1) wonGame12 = adjacentHazards wonGame12 (0, 1) \<and>
   valueAt (0, 1) wonGame12 \<le> 8 \<and> valueAt (0, 1) wonGame12 = 1"
proof -
  have h: "in_bounds wonGame12 (0, 1)" "revealedAt (0, 1) wonGame12" "\<not> mineAt (0, 1) wonGame12"
    by code_simp+
  have v: "valueAt (0, 1) wonGame12 = 1" by code_simp
  from revealed_value_is_adjacency[OF reachable_wonGame12 h] reachable_wonGame12 h v
  show ?thesis by blast
qed

text \<open>
  Claim C5 as stated fails for a revealed cell that holds a mine: the scan of
  \<open>#setCellValue\<close> runs over the whole block, the clicked cell included, so a clicked
  mine with no mine around it stores 1 (and one with eight mines around it stores 9);
  the other mines are revealed by \<open>#revealMines\<close> without any count.
\<close>

theorem clicked_mine_value_counterexample:
  "reachable lostGame \<and> in_bounds lostGame (0, 0) \<and> revealedAt (0, 0) lostGame \<and>
   valueAt (0, 0) lostGame = 1 \<and> adjacentHazards lostGame (0, 0) = 0"
proof -
  have "in_bounds lostGame (0, 0) \<and> revealedAt (0, 0) lostGame \<and>
   valueAt (0, 0) lostGame = 1 \<and> adjacentHazards lostGame (0, 0) = 0"
    by code_simp
  with reachable_lostGame show ?thesis by blast
qed

lemma clicked_mine_value_nine:
  "map_option (valueAt (1, 1))
     (session 3 3 9 [(0, 0), (0, 1), (0, 2), (1, 0), (1, 1), (1, 2), (2, 0), (2, 1), (2, 2)] 1
        [Click (1, 1)]) = Some 9"
  by code_simp

section \<open>The cascade terminates\<close>

text \<open>
  Claim C7.  On a well-formed board a left click on a cell of the grid returns: a
  recursion depth of \<open>rows * cols + 1\<close> is enough, and any larger bound gives the same
  state.  The cells processed by the request are pairwise distinct, at most
  \<open>rows * cols\<close> many, and each adds one to \<open>#revealedCells\<close>; apart from the clicked
  cell, each was not revealed before the request, and all are revealed after it.
\<close>

theorem cascade_terminates:
  assumes "wf_board g" "in_bounds g p"
  shows "\<exists>g' ps.
           (\<forall>k. handleCellClick (Suc (numberOfRowes g * numberOfCols g) + k) g (event_of p)
                  = Some (Inr g')) \<and>
           processed g' = ps @ processed g \<and> distinct ps \<and>
           length ps \<le> numberOfRowes g * numberOfCols g \<and>
           revealedCells g' = revealedCells g + int (length ps) \<and>
           (\<forall>r \<in> set ps. (r = p \<or> \<not> revealedAt r g) \<and> revealedAt r g')"
proof -
  let ?n = "numberOfRowes g * numberOfCols g"
  from clickCell_total[OF assms card_unrevealed_le]
  obtain g' where c: "clickCell (Suc ?n) g p = Some g'" ..
  have "handleCellClick (Suc ?n + k) g (event_of p) = Some (Inr g')" for k
    using clickCell_fuel_mono[OF c, of k]
    by (simp add: handleCellClick_in_bounds[OF assms] del: clickCell.simps)
  moreover from clickCell_traced[OF c assms]
  obtain ps where t: "traced g g' ps" and n: "\<forall>r \<in> set ps. r = p \<or> \<not> revealedAt r g"
    by blast
  have "length ps \<le> ?n"
  proof -
    from t have "distinct ps" "set ps \<subseteq> {r. in_bounds g r}" by (auto simp: traced_def)
    then have "card (set ps) = length ps" "card (set ps) \<le> card {r. in_bounds g r}"
      by (simp add: distinct_card, intro card_mono finite_in_bounds)
    then show ?thesis by (simp add: card_in_bounds)
  qed
  ultimately have "(\<forall>k. handleCellClick (Suc ?n + k) g (event_of p) = Some (Inr g')) \<and>
           processed g' = ps @ processed g \<and> distinct ps \<and> length ps \<le> ?n \<and>
           revealedCells g' = revealedCells g + int (length ps) \<and>
           (\<forall>r \<in> set ps. (r = p \<or> \<not> revealedAt r g) \<and> revealedAt r g')"
    using t n by (simp add: traced_def)
  then show ?thesis by (intro exI[of _ g'] exI[of _ ps])
qed

theorem cascade_terminates_witness:
  "wf_board board33 \<and> in_bounds board33 (0, 0) \<and>
   handleCellClick 10 board33 (0, 0) = Some (Inr won33) \<and>
   handleCellClick 25 board33 (0, 0) = Some (Inr won33) \<and>
   processed won33 = [(2, 1), (2, 0), (1, 0), (1, 2), (1, 1), (0, 2), (0, 1), (0, 0)] \<and>
   distinct (processed won33) \<and> length (processed won33) \<le> 9 \<and>
   revealedCells won33 = revealedCells board33 + 8"
proof -
  have h: "wf_board board33" "in_bounds board33 (0, 0)" by code_simp+
  have ev: "event_of (0, 0) = (0, 0)" by (simp add: event_of_def)
  have n: "numberOfRowes board33 * numberOfCols board33 = 9" by (simp add: board33_def)
  have e: "handleCellClick 10 board33 (0, 0) = Some (Inr won33)" by code_simp
  have pw: "processed won33 = [(2, 1), (2, 0), (1, 0), (1, 2), (1, 1), (0, 2), (0, 1), (0, 0)]"
    by (simp add: won33_def)
  have pb: "processed board33 = []" by (simp add: board33_def)
  from cascade_terminates[OF h] obtain g' ps where
    k: "\<And>k. handleCellClick (Suc (numberOfRowes board33 * numberOfCols board33) + k) board33
          (event_of (0, 0)) = Some (Inr g')"
    and p: "processed g' = ps @ processed board33" "distinct ps"
      "length ps \<le> numberOfRowes board33 * numberOfCols board33"
      "revealedCells g' = revealedCells board33 + int (length ps)"
    by blast
  from k[of 0] e have g': "g' = won33" by (simp add: n ev)
  from k[of 15] have e25: "handleCellClick 25 board33 (0, 0) = Some (Inr won33)"
    by (simp add: n ev g' del: clickCell.simps)
  from p(1) have ps: "ps = processed won33" by (simp add: g' pb)
  from p(2,3,4) have "distinct (processed won33)" "length (processed won33) \<le> 9"
    "revealedCells won33 = revealedCells board33 + 8"
    by (simp_all add: ps n g' pw)
  with h e e25 pw show ?thesis by blast
qed

section \<open>The cascade reveals the region around a cell without mines nearby\<close>

text \<open>
  Claim C3, as the code has it.  Take a game in progress whose counters agree with
  the grid (as they do after \<open>#newGame\<close>, after right clicks and after left clicks
  on hidden cells, see \<open>consistent_newGame\<close>, \<open>consistent_flag\<close> and
  \<open>consistent_click\<close>), and a left click on a hidden cell without a flag, without a
  mine and without a mine among its neighbours.  The click returns; the cell is
  revealed; so is every cell reached from it by a chain of cells that were hidden and
  unflagged before the click, each but the last without a mine among its neighbours;
  and no flagged cell changes between hidden and revealed.
\<close>

theorem cascade_reveals_zero_region:
  assumes "wf_board g" "\<not> isGameFinished g" "consistent g"
    and "in_bounds g p" "\<not> flaggedAt p g" "\<not> revealedAt p g" "\<not> mineAt p g"
    and "adjacentHazards g p = 0"
  shows "\<exists>g'. (\<forall>k. handleCellClick (Suc (numberOfRowes g * numberOfCols g) + k) g (event_of p)
                    = Some (Inr g')) \<and>
           revealedAt p g' \<and>
           (\<forall>q. chain g p q \<longrightarrow> revealedAt q g') \<and>
           (\<forall>q. in_bounds g q \<and> flaggedAt q g \<longrightarrow> (revealedAt q g' \<longleftrightarrow> revealedAt q g))"
proof -
  let ?n = "numberOfRowes g * numberOfCols g"
  have cg: "counted g" using assms(1-3) by (simp add: counted_def consistent_def)
  from clickCell_total[OF assms(1,4) card_unrevealed_le]
  obtain g' where c: "clickCell (Suc ?n) g p = Some g'" ..
  have run: "handleCellClick (Suc ?n + k) g (event_of p) = Some (Inr g')" for k
    using clickCell_fuel_mono[OF c, of k]
    by (simp add: handleCellClick_in_bounds[OF assms(1,4)] del: clickCell.simps)
  from clickCell_closed[OF c cg assms(4,6,7)] assms(5)
  have post: "counted g'" "frame g g'" "closed_since g g'" "flags_kept g g'"
    "isGameFinished g' \<or> revealedAt p g'"
    by simp_all
  have safe: "revealedAt q g'" if "isGameFinished g'" "in_bounds g q" "\<not> mineAt q g" for q
  proof -
    from that(2,3) have "q \<in> safePlaces g'"
      by (simp add: safePlaces_frame[OF post(2)] safePlaces_iff)
    with post(1) that(1) show ?thesis
      by (auto simp: counted_def revealedPlaces_iff)
  qed
  have rp: "revealedAt p g'" using post(5) safe[OF _ assms(4,7)] by blast
  have ch: "in_bounds g q \<and> \<not> mineAt q g \<and> \<not> revealedAt q g \<and> revealedAt q g'"
    if "chain g p q" for q
    using that
  proof (induction rule: chain.induct)
    case first
    show ?case using assms(4,6,7) rp by simp
  next
    case (further q r)
    then have q: "in_bounds g q" "\<not> mineAt q g" "\<not> revealedAt q g" "revealedAt q g'"
      by simp_all
    have z: "minesCount g q = 0"
      using minesCount_adjacentHazards[OF assms(1) q(1)] q(2) further.hyps(2) by simp
    have nm: "\<not> mineAt r g"
      using assms(1) q(1) z further.hyps(3,4) by (rule minesCount_zero)
    have "revealedAt r g'"
    proof (cases "isGameFinished g'")
      case True
      then show ?thesis using further.hyps(3) nm by (rule safe)
    next
      case False
      with post(3) q z further.hyps(3,4,5) show ?thesis
        unfolding closed_since_def by blast
    qed
    with further.hyps(3,6) nm show ?case by simp
  qed
  have "(\<forall>k. handleCellClick (Suc ?n + k) g (event_of p) = Some (Inr g')) \<and>
           revealedAt p g' \<and>
           (\<forall>q. chain g p q \<longrightarrow> revealedAt q g') \<and>
           (\<forall>q. in_bounds g q \<and> flaggedAt q g \<longrightarrow> (revealedAt q g' \<longleftrightarrow> revealedAt q g))"
    using run rp ch post(4) unfolding flags_kept_def by blast
  then show ?thesis ..
qed

theorem cascade_reveals_zero_region_witness:
  "wf_board flagged33 \<and> \<not> isGameFinished flagged33 \<and> consistent flagged33 \<and>
   in_bounds flagged33 (0, 0) \<and> \<not> flaggedAt (0, 0) flagged33 \<and>
   \<not> revealedAt (0, 0) flagged33 \<and> \<not> mineAt (0, 0) flagged33 \<and>
   adjacentHazards flagged33 (0, 0) = 0 \<and>
   chain flagged33 (0, 0) (1, 2) \<and>
   in_bounds flagged33 (1, 0) \<and> flaggedAt (1, 0) flagged33 \<and> \<not> revealedAt (1, 0) flagged33 \<and>
   map_option (revealedAt (0, 0)) (play 10 [Click (0, 0)] flagged33) = Some True \<and>
   map_option (revealedAt (1, 2)) (play 10 [Click (0, 0)] flagged33) = Some True \<and>
   map_option (revealedAt (1, 0)) (play 10 [Click (0, 0)] flagged33) = Some False"
proof -
  have h: "wf_board flagged33" "\<not> isGameFinished flagged33" "consistent flagged33"
    "in_bounds flagged33 (0, 0)" "\<not> flaggedAt (0, 0) flagged33"
    "\<not> revealedAt (0, 0) flagged33" "\<not> mineAt (0, 0) flagged33"
    "adjacentHazards flagged33 (0, 0) = 0"
    by code_simp+
  have fl: "in_bounds flagged33 (1, 0)" "flaggedAt (1, 0) flagged33"
    "\<not> revealedAt (1, 0) flagged33"
    by code_simp+
  have ev: "event_of (0, 0) = (0, 0)" by (simp add: event_of_def)
  have n: "numberOfRowes flagged33 * numberOfCols flagged33 = 9" by (simp add: flagged33_def)
  from cascade_reveals_zero_region[OF h] obtain g' where
    k: "\<And>k. handleCellClick (Suc (numberOfRowes flagged33 * numberOfCols flagged33) + k)
          flagged33 (event_of (0, 0)) = Some (Inr g')"
    and p: "revealedAt (0, 0) g'"
    and c: "\<And>q. chain flagged33 (0, 0) q \<Longrightarrow> revealedAt q g'"
    and f: "\<And>q. in_bounds flagged33 q \<and> flaggedAt q flagged33 \<Longrightarrow>
          revealedAt q g' \<longleftrightarrow> revealedAt q flagged33"
    by blast
  from k[of 0] have "handleCellClick 10 flagged33 (0, 0) = Some (Inr g')"
    by (simp add: n ev del: clickCell.simps)
  then have pl: "play 10 [Click (0, 0)] flagged33 = Some g'"
    by (simp add: dispatch_def state_after_def del: clickCell.simps)
  from c[OF chain_flagged33] have c12: "revealedAt (1, 2) g'" .
  from f[of "(1, 0)"] fl have f10: "\<not> revealedAt (1, 0) g'" by simp
  have "map_option (revealedAt (0, 0)) (play 10 [Click (0, 0)] flagged33) = Some True"
    "map_option (revealedAt (1, 2)) (play 10 [Click (0, 0)] flagged33) = Some True"
    "map_option (revealedAt (1, 0)) (play 10 [Click (0, 0)] flagged33) = Some False"
    using p c12 f10 unfolding pl by simp_all
  with h fl chain_flagged33 show ?thesis by blast
qed

text \<open>
  Claim C3 as stated fails where the chain runs through a cell that is already
  revealed: the cascade skips revealed cells and does not start from them again.  In
  \<open>stale16\<close> column 1 is revealed with count 0 while its neighbours are hidden
  (they were flagged when it was clicked); a click on column 0 reveals column 0 and
  leaves column 2 hidden, though no cell carries a flag any more.
\<close>

theorem stale_zero_cell_counterexample:
  "session 1 6 2 [(0, 4), (0, 5)] 3
     [ContextMenu (0, 0), ContextMenu (0, 2), Click (0, 1), ContextMenu (0, 0),
      ContextMenu (0, 2)] = Some stale16 \<and>
   \<not> isGameFinished stale16 \<and> consistent stale16 \<and>
   \<not> mineAt (0, 0) stale16 \<and> \<not> flaggedAt (0, 0) stale16 \<and> \<not> revealedAt (0, 0) stale16 \<and>
   adjacentHazards stale16 (0, 0) = 0 \<and>
   near (0, 0) (0, 1) \<and> adjacentHazards stale16 (0, 1) = 0 \<and> \<not> flaggedAt (0, 1) stale16 \<and>
   near (0, 1) (0, 2) \<and> \<not> flaggedAt (0, 2) stale16 \<and> \<not> mineAt (0, 2) stale16 \<and>
   map_option (revealedAt (0, 0)) (play 7 [Click (0, 0)] stale16) = Some True \<and>
   map_option (revealedAt (0, 2)) (play 7 [Click (0, 0)] stale16) = Some False"
  by code_simp

section \<open>Clicking a mine\<close>

text \<open>
  Claim C4, as the code has it.  In a game that is not finished, a left click on a
  cell that holds a mine and carries no flag ends the game as a loss, whatever the
  number of cells still hidden: \<open>isGameFinished\<close> is set, the reset button shows the
  negative face (the face of \<open>#endGame(false)\<close>, not the positive one of a win), and
  the clicked cell is revealed.
\<close>

theorem hazard_reveal_loses:
  assumes "wf_board g" "in_bounds g p" "\<not> isGameFinished g" "\<not> flaggedAt p g" "mineAt p g"
  shows "\<exists>g'. handleCellClick (Suc n) g (event_of p) = Some (Inr g') \<and>
           isGameFinished g' \<and> reset_emotion g' = Negative \<and> revealedAt p g'"
proof -
  let ?g1 = "endGame False g"
  have w1: "wf_board ?g1" using assms(1) by (rule wf_board_endGame)
  have b1: "in_bounds ?g1 p" using assms(2) by simp
  have "clickCell (Suc n) g p = Some (processCell ?g1 p)"
    using assms by (intro clickCell_mine) (simp_all add: flaggedAt_def mineAt_def)
  then have "handleCellClick (Suc n) g (event_of p) = Some (Inr (processCell ?g1 p))"
    by (simp add: handleCellClick_in_bounds[OF assms(1,2)])
  moreover have "isGameFinished (processCell ?g1 p)" "reset_emotion (processCell ?g1 p) = Negative"
    by simp_all
  moreover have "revealedAt p (processCell ?g1 p)"
    by (simp add: revealedAt_def cellAt_processCell[OF w1 b1])
  ultimately show ?thesis by blast
qed

theorem hazard_reveal_loses_witness:
  "wf_board board12 \<and> in_bounds board12 (0, 0) \<and> \<not> isGameFinished board12 \<and>
   \<not> flaggedAt (0, 0) board12 \<and> mineAt (0, 0) board12 \<and>
   handleCellClick (Suc 0) board12 (0, 0) = Some (Inr lostGame) \<and>
   isGameFinished lostGame \<and> reset_emotion lostGame = Negative \<and> revealedAt (0, 0) lostGame"
proof -
  have h: "wf_board board12" "in_bounds board12 (0, 0)" "\<not> isGameFinished board12"
    "\<not> flaggedAt (0, 0) board12" "mineAt (0, 0) board12"
    by code_simp+
  have e: "handleCellClick (Suc 0) board12 (0, 0) = Some (Inr lostGame)" by code_simp
  have ev: "event_of (0, 0) = (0, 0)" by (simp add: event_of_def)
  from hazard_reveal_loses[OF h, of 0] e ev
  have "isGameFinished lostGame \<and> reset_emotion lostGame = Negative \<and> revealedAt (0, 0) lostGame"
    by simp
  with h e show ?thesis by blast
qed

text \<open>
  Claim C4 as stated fails for a flagged mine: \<open>#clickCell\<close> returns at once on a
  flagged cell, so the click changes nothing and the game goes on.
\<close>

theorem flagged_hazard_counterexample:
  "handleCellContextMenu board12 (0, 0) = Inr flaggedMine12 \<and>
   mineAt (0, 0) flaggedMine12 \<and> \<not> isGameFinished flaggedMine12 \<and>
   handleCellClick 2 flaggedMine12 (0, 0) = Some (Inr flaggedMine12)"
  by code_simp

section \<open>Clicking a revealed cell again\<close>

text \<open>
  \<open>#handleCellClick\<close> passes a revealed cell to \<open>#clickCell\<close>, which (unlike the
  cascade and unlike \<open>#handleCellContextMenu\<close>) does not look at \<open>isReveal\<close>: the
  cell is processed again and \<open>#revealedCells\<close> is incremented again.
\<close>

text \<open>
  Claim C2 at a concrete input: the easy game, with the mines of \<open>easyDraws\<close>.
  A click on row 6, column 7 reveals the cell (its count is 2) and the counter of
  revealed cells is 1; a second click on the same cell leaves the grid as it is and
  makes the counter 2.
\<close>

theorem second_click_counts_again:
  "map_option (revealedAt (6, 7)) (session 8 8 10 easyDraws 65 [Click (6, 7)]) = Some True \<and>
   map_option (flaggedAt (6, 7)) (session 8 8 10 easyDraws 65 [Click (6, 7)]) = Some False \<and>
   map_option counters (session 8 8 10 easyDraws 65 [Click (6, 7)]) = Some (1, 54, False) \<and>
   map_option counters (session 8 8 10 easyDraws 65 [Click (6, 7), Click (6, 7)])
     = Some (2, 54, False) \<and>
   map_option cells (session 8 8 10 easyDraws 65 [Click (6, 7), Click (6, 7)]) =
     map_option cells (session 8 8 10 easyDraws 65 [Click (6, 7)])"
  by code_simp

text \<open>
  Claim C1 at a concrete input: the easy game, with the mines of \<open>easyDraws\<close>, so
  that 54 cells are to be revealed.  53 clicks on row 6, column 7 bring the counter of
  revealed cells to 53 with one cell revealed.  A click on row 0, column 0 (its count
  is 0) makes it 54 and starts the cascade before the counter is compared; the
  cascade reveals the 52 other cells without a mine.  The counter ends at 106, above
  the bound 54, and the game is not finished although every cell without a mine is
  revealed.
\<close>

theorem revealed_count_overshoots:
  "map_option counters
     (session 8 8 10 easyDraws 65 (replicate 53 (Click (6, 7)) @ [Click (0, 0)]))
     = Some (106, 54, False)"
  by code_simp

text \<open>
  The same on the smallest board that shows it, with a flag instead of repeated
  clicks: one row and three columns, the mine at column 2.  Flag column 1, click
  column 0 (the flag stops the cascade), remove the flag, click column 0 again.
\<close>

lemma revealed_count_overshoots_small:
  "map_option counters
     (session 1 3 1 [(0, 2)] 4
        [ContextMenu (0, 1), Click (0, 0), ContextMenu (0, 1), Click (0, 0)])
     = Some (3, 2, False)"
  by code_simp

text \<open>
  The same defect the other way round: 54 clicks on one cell of the easy game win it
  with that one cell revealed.
\<close>

lemma repeated_click_wins:
  "map_option reset_emotion (session 8 8 10 easyDraws 65 (replicate 54 (Click (6, 7))))
     = Some Positive \<and>
   map_option counters (session 8 8 10 easyDraws 65 (replicate 54 (Click (6, 7))))
     = Some (54, 54, True) \<and>
   map_option (revealedAt (0, 0)) (session 8 8 10 easyDraws 65 (replicate 54 (Click (6, 7))))
     = Some False"
  by code_simp

end
